theory Spec2Isabelle
  imports Main "HOL-Library.Word"
begin

unbundle bit_operations_syntax

section \<open>AES-128 block encryption (aes128e.c)\<close>

text \<open>
  A \<open>uint8_t\<close> is an 8-bit word and a buffer of bytes is a list of them. Every function
  of the C source that writes through a pointer takes the pointed-to buffer and returns it
  updated. Indices that the source computes in \<open>unsigned\<close>, \<open>int\<close> or \<open>uint8_t\<close> and that
  stay below 176 are natural numbers; the 32-bit length and block counter of the OFB driver
  are 32-bit words.

  The source checks no length: a key or an IV shorter than 16 bytes, or a plaintext or
  output buffer shorter than the length passed, makes the C code read or write out of
  bounds, which is undefined. The theorems below are about buffers of the sizes the
  interface asks for, and say so in their hypotheses.
\<close>

type_synonym byte = "8 word"

definition Nb :: nat where "Nb = 4"
definition Nk :: nat where "Nk = 4"
definition Nr :: nat where "Nr = 10"

definition sbox :: "byte list" where
  "sbox =
    [
     0x63, 0x7C, 0x77, 0x7B, 0xF2, 0x6B, 0x6F, 0xC5,
     0x30, 0x01, 0x67, 0x2B, 0xFE, 0xD7, 0xAB, 0x76,
     0xCA, 0x82, 0xC9, 0x7D, 0xFA, 0x59, 0x47, 0xF0,
     0xAD, 0xD4, 0xA2, 0xAF, 0x9C, 0xA4, 0x72, 0xC0,
     0xB7, 0xFD, 0x93, 0x26, 0x36, 0x3F, 0xF7, 0xCC,
     0x34, 0xA5, 0xE5, 0xF1, 0x71, 0xD8, 0x31, 0x15,
     0x04, 0xC7, 0x23, 0xC3, 0x18, 0x96, 0x05, 0x9A,
     0x07, 0x12, 0x80, 0xE2, 0xEB, 0x27, 0xB2, 0x75,
     0x09, 0x83, 0x2C, 0x1A, 0x1B, 0x6E, 0x5A, 0xA0,
     0x52, 0x3B, 0xD6, 0xB3, 0x29, 0xE3, 0x2F, 0x84,
     0x53, 0xD1, 0x00, 0xED, 0x20, 0xFC, 0xB1, 0x5B,
     0x6A, 0xCB, 0xBE, 0x39, 0x4A, 0x4C, 0x58, 0xCF,
     0xD0, 0xEF, 0xAA, 0xFB, 0x43, 0x4D, 0x33, 0x85,
     0x45, 0xF9, 0x02, 0x7F, 0x50, 0x3C, 0x9F, 0xA8,
     0x51, 0xA3, 0x40, 0x8F, 0x92, 0x9D, 0x38, 0xF5,
     0xBC, 0xB6, 0xDA, 0x21, 0x10, 0xFF, 0xF3, 0xD2,
     0xCD, 0x0C, 0x13, 0xEC, 0x5F, 0x97, 0x44, 0x17,
     0xC4, 0xA7, 0x7E, 0x3D, 0x64, 0x5D, 0x19, 0x73,
     0x60, 0x81, 0x4F, 0xDC, 0x22, 0x2A, 0x90, 0x88,
     0x46, 0xEE, 0xB8, 0x14, 0xDE, 0x5E, 0x0B, 0xDB,
     0xE0, 0x32, 0x3A, 0x0A, 0x49, 0x06, 0x24, 0x5C,
     0xC2, 0xD3, 0xAC, 0x62, 0x91, 0x95, 0xE4, 0x79,
     0xE7, 0xC8, 0x37, 0x6D, 0x8D, 0xD5, 0x4E, 0xA9,
     0x6C, 0x56, 0xF4, 0xEA, 0x65, 0x7A, 0xAE, 0x08,
     0xBA, 0x78, 0x25, 0x2E, 0x1C, 0xA6, 0xB4, 0xC6,
     0xE8, 0xDD, 0x74, 0x1F, 0x4B, 0xBD, 0x8B, 0x8A,
     0x70, 0x3E, 0xB5, 0x66, 0x48, 0x03, 0xF6, 0x0E,
     0x61, 0x35, 0x57, 0xB9, 0x86, 0xC1, 0x1D, 0x9E,
     0xE1, 0xF8, 0x98, 0x11, 0x69, 0xD9, 0x8E, 0x94,
     0x9B, 0x1E, 0x87, 0xE9, 0xCE, 0x55, 0x28, 0xDF,
     0x8C, 0xA1, 0x89, 0x0D, 0xBF, 0xE6, 0x42, 0x68,
     0x41, 0x99, 0x2D, 0x0F, 0xB0, 0x54, 0xBB, 0x16]"

definition Rcon :: "byte list" where
  "Rcon = [0x00, 0x01, 0x02, 0x04, 0x08, 0x10, 0x20, 0x40, 0x80, 0x1B, 0x36]"

text \<open>
  \<open>memcpy(dst, src, n)\<close>: the first \<open>n\<close> bytes of \<open>dst\<close> are replaced by the first
  \<open>n\<close> bytes of \<open>src\<close>.
\<close>

definition memcpy :: "byte list \<Rightarrow> byte list \<Rightarrow> nat \<Rightarrow> byte list" where
  "memcpy dst src n = take n src @ drop n dst"

text \<open>
  \<open>xtime\<close>: \<open>*x = (*x << 1) ^ ((*x & 0x80) ? 0x1b : 0x00)\<close>. The operand is promoted to
  \<open>int\<close>, so the shift and the exclusive or are computed on integers and the assignment
  truncates the result to 8 bits.
\<close>

definition xtime :: "byte \<Rightarrow> byte" where
  "xtime x =
     word_of_int (push_bit 1 (uint x) XOR (if uint x AND 0x80 \<noteq> 0 then 0x1b else 0x00))"

text \<open>
  \<open>KeyExpansion\<close>. The first loop copies the key, one 4-byte word per iteration; the
  second loop computes the words 4..43 in place. \<open>tempa\<close> is the local 4-byte array. The
  operands of \<open>^\<close> are bytes promoted to \<open>int\<close> and the result is stored in a byte, which
  is the exclusive or of the bytes.
\<close>

definition KeyExpansion_copy :: "byte list \<Rightarrow> nat \<Rightarrow> byte list \<Rightarrow> byte list" where
  "KeyExpansion_copy Key i RoundKey =
     (let RoundKey = RoundKey[(i * 4) + 0 := Key ! ((i * 4) + 0)];
          RoundKey = RoundKey[(i * 4) + 1 := Key ! ((i * 4) + 1)];
          RoundKey = RoundKey[(i * 4) + 2 := Key ! ((i * 4) + 2)];
          RoundKey = RoundKey[(i * 4) + 3 := Key ! ((i * 4) + 3)]
      in RoundKey)"

definition KeyExpansion_word :: "nat \<Rightarrow> byte list \<Rightarrow> byte list" where
  "KeyExpansion_word i RoundKey =
     (let k = (i - 1) * 4;
          tempa = [RoundKey ! (k + 0), RoundKey ! (k + 1), RoundKey ! (k + 2), RoundKey ! (k +
              3)];
          tempa =
            (if i mod Nk = 0 then
               (let u8tmp = tempa ! 0;
                    tempa = tempa[0 := sbox ! unat (tempa ! 1) XOR Rcon ! (i div Nk)];
                    tempa = tempa[1 := sbox ! unat (tempa ! 2)];
                    tempa = tempa[2 := sbox ! unat (tempa ! 3)];
                    tempa = tempa[3 := sbox ! unat u8tmp]
                in tempa)
             else tempa);
          j = i * 4;
          k = (i - Nk) * 4;
          RoundKey = RoundKey[j + 0 := RoundKey ! (k + 0) XOR tempa ! 0];
          RoundKey = RoundKey[j + 1 := RoundKey ! (k + 1) XOR tempa ! 1];
          RoundKey = RoundKey[j + 2 := RoundKey ! (k + 2) XOR tempa ! 2];
          RoundKey = RoundKey[j + 3 := RoundKey ! (k + 3) XOR tempa ! 3]
      in RoundKey)"

definition KeyExpansion :: "byte list \<Rightarrow> byte list \<Rightarrow> byte list" where
  "KeyExpansion RoundKey Key =
     fold KeyExpansion_word [Nk..<Nb * (Nr + 1)] (fold (KeyExpansion_copy Key) [0..<Nk] RoundKey)"

text \<open>\<open>AddRoundKey\<close>: \<open>state[i] ^= RoundKey[(round * Nb * 4) + i]\<close> for \<open>i\<close> from 0 to 15.\<close>

definition AddRoundKey :: "nat \<Rightarrow> byte list \<Rightarrow> byte list \<Rightarrow> byte list" where
  "AddRoundKey round state RoundKey =
     fold (\<lambda>i state. state[i := state ! i XOR RoundKey ! ((round * Nb * 4) + i)]) [0..<16] state"

text \<open>\<open>SubBytes\<close>: \<open>state[i] = sbox[state[i]]\<close> for \<open>i\<close> from 0 to 15.\<close>

definition SubBytes :: "byte list \<Rightarrow> byte list" where
  "SubBytes state = fold (\<lambda>i state. state[i := sbox ! unat (state ! i)]) [0..<16] state"

text \<open>\<open>ShiftRows\<close>: the assignments of the source, in its order.\<close>

definition ShiftRows :: "byte list \<Rightarrow> byte list" where
  "ShiftRows state =
     (let temp = state ! 1;
          state = state[1 := state ! 5];
          state = state[5 := state ! 9];
          state = state[9 := state ! 13];
          state = state[13 := temp];
          temp = state ! 2;
          state = state[2 := state ! 10];
          state = state[10 := temp];
          temp = state ! 6;
          state = state[6 := state ! 14];
          state = state[14 := temp];
          temp = state ! 3;
          state = state[3 := state ! 15];
          state = state[15 := state ! 11];
          state = state[11 := state ! 7];
          state = state[7 := temp]
      in state)"

text \<open>\<open>MixColumns\<close>: the body of the loop over the four columns, then the loop.\<close>

definition MixColumns_column :: "nat \<Rightarrow> byte list \<Rightarrow> byte list" where
  "MixColumns_column i state =
     (let t = state ! (i * 4 + 0);
          Tmp = state ! (i * 4 + 0) XOR state ! (i * 4 + 1) XOR state ! (i * 4 + 2)
                  XOR state ! (i * 4 + 3);
          Tm = state ! (i * 4 + 0) XOR state ! (i * 4 + 1);
          Tm = xtime Tm;
          state = state[i * 4 + 0 := state ! (i * 4 + 0) XOR (Tm XOR Tmp)];
          Tm = state ! (i * 4 + 1) XOR state ! (i * 4 + 2);
          Tm = xtime Tm;
          state = state[i * 4 + 1 := state ! (i * 4 + 1) XOR (Tm XOR Tmp)];
          Tm = state ! (i * 4 + 2) XOR state ! (i * 4 + 3);
          Tm = xtime Tm;
          state = state[i * 4 + 2 := state ! (i * 4 + 2) XOR (Tm XOR Tmp)];
          Tm = state ! (i * 4 + 3) XOR t;
          Tm = xtime Tm;
          state = state[i * 4 + 3 := state ! (i * 4 + 3) XOR (Tm XOR Tmp)]
      in state)"

definition MixColumns :: "byte list \<Rightarrow> byte list" where
  "MixColumns state = fold MixColumns_column [0..<4] state"

text \<open>
  \<open>aes128e\<close>. The local arrays \<open>RoundKey[176]\<close> and \<open>state[16]\<close> are not initialised
  by the source; \<open>state\<close> is filled by \<open>memcpy\<close> and \<open>RoundKey\<close> by \<open>KeyExpansion\<close>
  before they are read, and the model starts them at zero (what \<open>KeyExpansion\<close> leaves
  in a 176-byte buffer does not depend on what the buffer held, see \<open>KeyExpansion_expand\<close>
  below). The result is the \<open>output\<close> buffer after the final \<open>memcpy\<close>.
\<close>

definition aes128e_round :: "byte list \<Rightarrow> nat \<Rightarrow> byte list \<Rightarrow> byte list" where
  "aes128e_round RoundKey round state =
     (let state = SubBytes state;
          state = ShiftRows state;
          state = MixColumns state;
          state = AddRoundKey round state RoundKey
      in state)"

definition aes128e :: "byte list \<Rightarrow> byte list \<Rightarrow> byte list \<Rightarrow> byte list" where
  "aes128e output input key =
     (let RoundKey = replicate 176 0;
          state = replicate 16 0;
          state = memcpy state input 16;
          RoundKey = KeyExpansion RoundKey key;
          state = AddRoundKey 0 state RoundKey;
          state = fold (aes128e_round RoundKey) [1..<Nr] state;
          state = SubBytes state;
          state = ShiftRows state;
          state = AddRoundKey Nr state RoundKey
      in memcpy output state 16)"

section \<open>The OFB driver (obf.c)\<close>

text \<open>
  The local state of \<open>OFBaes128e\<close>: the caller's output buffer as written so far and
  the two local arrays. \<open>aes_calls\<close> is not a variable of the source: it counts the calls
  of \<open>aes128e\<close> made so far, so that statements about the number of block-cipher
  invocations can be made.
\<close>

record ofb_locals =
  ciphertext_buf :: "byte list"
  block_out :: "byte list"
  feedback :: "byte list"
  aes_calls :: nat

text \<open>
  The inner loops: \<open>ciphertext[base + j] = plaintext[base + j] ^ block_out[j]\<close> for \<open>j\<close>
  from 0 to \<open>n - 1\<close>, where \<open>base\<close> is \<open>i * 16\<close> or \<open>full_blocks * 16\<close>, computed in
  \<open>uint32_t\<close> as the index \<open>base + j\<close> is.
\<close>

definition OFB_xor :: "32 word \<Rightarrow> nat \<Rightarrow> byte list \<Rightarrow> byte list \<Rightarrow> byte list \<Rightarrow> byte list" where
  "OFB_xor base n plaintext blk ciphertext =
     fold (\<lambda>j ciphertext.
             ciphertext[unat (base + word_of_nat j) :=
               plaintext ! unat (base + word_of_nat j) XOR blk ! j])
       [0..<n] ciphertext"

text \<open>
  The loop over the full blocks, from the counter \<open>i\<close> on. The counter is a
  \<open>uint32_t\<close>; it stays below \<open>full_blocks\<close>, so \<open>++i\<close> does not wrap.
\<close>

lemma unat_succ_less:
  fixes i n :: "32 word"
  assumes "i < n"
  shows "unat (i + 1) = unat i + 1"
proof -
  have a: "unat i < unat n" using assms by (simp add: word_less_nat_alt)
  have b: "unat n < 2 ^ 32" using unsigned_less [of n, where 'a=nat] by simp
  have "unat (i + 1) = (unat i + 1) mod 2 ^ 32" by (simp add: unat_word_ariths)
  then show ?thesis using a b by simp
qed

function OFB_blocks :: "byte list \<Rightarrow> byte list \<Rightarrow> 32 word \<Rightarrow> 32 word \<Rightarrow> ofb_locals \<Rightarrow> ofb_locals" where
  "OFB_blocks plaintext key full_blocks i s =
     (if i < full_blocks then
        (let blk = aes128e (block_out s) (feedback s) key;
             ciphertext = OFB_xor (i * 16) 16 plaintext blk (ciphertext_buf s);
             fb = memcpy (feedback s) blk 16
         in OFB_blocks plaintext key full_blocks (i + 1)
              \<lparr>ciphertext_buf = ciphertext, block_out = blk, feedback = fb,
               aes_calls = aes_calls s + 1\<rparr>)
      else s)"
  by pat_completeness auto
termination
proof (relation "measure (\<lambda>(plaintext, key, full_blocks, i, s). unat full_blocks - unat i)")
  show "wf (measure (\<lambda>(plaintext, key, full_blocks, i, s). unat full_blocks - unat i))"
    by simp
next
  fix plaintext key :: "byte list" and full_blocks i :: "32 word" and s :: ofb_locals
    and blk ciphertext fb :: "byte list"
  assume lt: "i < full_blocks"
  then have "unat (i + 1) = unat i + 1"
    by (rule unat_succ_less)
  moreover have "unat i < unat full_blocks"
    using lt by (simp add: word_less_nat_alt)
  ultimately show
    "((plaintext, key, full_blocks, i + 1,
       \<lparr>ciphertext_buf = ciphertext, block_out = blk, feedback = fb,
        aes_calls = aes_calls s + 1\<rparr>),
      (plaintext, key, full_blocks, i, s))
     \<in> measure (\<lambda>(plaintext, key, full_blocks, i, s). unat full_blocks - unat i)"
    by simp
qed

declare OFB_blocks.simps [simp del]

text \<open>
  \<open>OFBaes128e\<close>: the locals are set to zero, the IV is copied into \<open>feedback\<close>, the full
  blocks are processed and then the partial block, if any. The result of the call is the
  output buffer.
\<close>

definition OFBaes128e_locals ::
  "byte list \<Rightarrow> byte list \<Rightarrow> 32 word \<Rightarrow> byte list \<Rightarrow> byte list \<Rightarrow> ofb_locals" where
  "OFBaes128e_locals ciphertext plaintext len iv key =
     (let blk = replicate 16 0;
          fb = replicate 16 0;
          fb = memcpy fb iv 16;
          full_blocks = len div 16;
          remaining = len mod 16;
          s = OFB_blocks plaintext key full_blocks 0
                \<lparr>ciphertext_buf = ciphertext, block_out = blk, feedback = fb, aes_calls = 0\<rparr>
      in if remaining > 0 then
           (let blk = aes128e (block_out s) (feedback s) key;
                ciphertext = OFB_xor (full_blocks * 16) (unat remaining) plaintext blk
                               (ciphertext_buf s)
            in s\<lparr>ciphertext_buf := ciphertext, block_out := blk,
                 aes_calls := aes_calls s + 1\<rparr>)
         else s)"

definition OFBaes128e ::
  "byte list \<Rightarrow> byte list \<Rightarrow> 32 word \<Rightarrow> byte list \<Rightarrow> byte list \<Rightarrow> byte list" where
  "OFBaes128e ciphertext plaintext len iv key =
     ciphertext_buf (OFBaes128e_locals ciphertext plaintext len iv key)"

section \<open>The OFB driver on the caller's memory\<close>

text \<open>
  \<open>OFBaes128e\<close> receives pointers, and nothing in its signature keeps the output
  buffer apart from the other three. To say what the call does to the caller's buffers
  the same function is modelled once more on a byte-addressed memory: a pointer is an
  address, \<open>p[k]\<close> is the byte at address \<open>p + k\<close>, and the two local arrays stay
  lists, since no pointer of the caller can point into them.
\<close>

type_synonym memory = "nat \<Rightarrow> byte"

definition read_bytes :: "memory \<Rightarrow> nat \<Rightarrow> nat \<Rightarrow> byte list" where
  "read_bytes mem p n = map (\<lambda>k. mem (p + k)) [0..<n]"

record ofb_mem_locals =
  mem_of :: memory
  mem_block_out :: "byte list"
  mem_feedback :: "byte list"

definition OFB_xor_mem :: "32 word \<Rightarrow> nat \<Rightarrow> nat \<Rightarrow> nat \<Rightarrow> byte list \<Rightarrow> memory \<Rightarrow> memory" where
  "OFB_xor_mem base n ciphertext plaintext blk mem =
     fold (\<lambda>j mem.
             mem(ciphertext + unat (base + word_of_nat j) :=
               mem (plaintext + unat (base + word_of_nat j)) XOR blk ! j))
       [0..<n] mem"

function OFB_blocks_mem ::
  "nat \<Rightarrow> nat \<Rightarrow> nat \<Rightarrow> 32 word \<Rightarrow> 32 word \<Rightarrow> ofb_mem_locals \<Rightarrow> ofb_mem_locals" where
  "OFB_blocks_mem ciphertext plaintext key full_blocks i s =
     (if i < full_blocks then
        (let blk = aes128e (mem_block_out s) (mem_feedback s) (read_bytes (mem_of s) key 16);
             mem = OFB_xor_mem (i * 16) 16 ciphertext plaintext blk (mem_of s);
             fb = memcpy (mem_feedback s) blk 16
         in OFB_blocks_mem ciphertext plaintext key full_blocks (i + 1)
              \<lparr>mem_of = mem, mem_block_out = blk, mem_feedback = fb\<rparr>)
      else s)"
  by pat_completeness auto
termination
proof (relation "measure (\<lambda>(ciphertext, plaintext, key, full_blocks, i, s).
                            unat full_blocks - unat i)")
  show "wf (measure (\<lambda>(ciphertext, plaintext, key, full_blocks, i, s).
                       unat full_blocks - unat i))"
    by simp
next
  fix ciphertext plaintext key :: nat and full_blocks i :: "32 word" and s :: ofb_mem_locals
    and blk fb :: "byte list" and mem :: memory
  assume lt: "i < full_blocks"
  then have "unat (i + 1) = unat i + 1"
    by (rule unat_succ_less)
  moreover have "unat i < unat full_blocks"
    using lt by (simp add: word_less_nat_alt)
  ultimately show
    "((ciphertext, plaintext, key, full_blocks, i + 1,
       \<lparr>mem_of = mem, mem_block_out = blk, mem_feedback = fb\<rparr>),
      (ciphertext, plaintext, key, full_blocks, i, s))
     \<in> measure (\<lambda>(ciphertext, plaintext, key, full_blocks, i, s).
                    unat full_blocks - unat i)"
    by simp
qed

declare OFB_blocks_mem.simps [simp del]

definition OFBaes128e_mem :: "nat \<Rightarrow> nat \<Rightarrow> 32 word \<Rightarrow> nat \<Rightarrow> nat \<Rightarrow> memory \<Rightarrow> memory" where
  "OFBaes128e_mem ciphertext plaintext len iv key mem =
     (let blk = replicate 16 0;
          fb = replicate 16 0;
          fb = memcpy fb (read_bytes mem iv 16) 16;
          full_blocks = len div 16;
          remaining = len mod 16;
          s = OFB_blocks_mem ciphertext plaintext key full_blocks 0
                \<lparr>mem_of = mem, mem_block_out = blk, mem_feedback = fb\<rparr>
      in if remaining > 0 then
           (let blk = aes128e (mem_block_out s) (mem_feedback s) (read_bytes (mem_of s) key 16)
            in OFB_xor_mem (full_blocks * 16) (unat remaining) ciphertext plaintext blk (mem_of
                s))
         else mem_of s)"

section \<open>The specification's view\<close>

text \<open>
  The definitions of this section follow the words of the specification and not the
  loops of the source; the theorems below relate the two.

  The expanded key is a sequence of 4-byte words, \<open>key_word rk i\<close> being word \<open>i\<close>, and
  of 16-byte round-key blocks, \<open>round_key rk k\<close> being block \<open>k\<close> (the words \<open>4k\<close> to
  \<open>4k + 3\<close>). \<open>xor_bytes\<close> is the bytewise XOR of two byte sequences.
  \<open>schedule_core n\<close> is the transformation applied to \<open>w[i - 1]\<close> when \<open>i\<close> is a multiple
  of 4: a rotation to the left by one byte, the S-box on every byte, and the XOR of the
  first byte with \<open>Rcon[n]\<close>.
\<close>

definition key_word :: "byte list \<Rightarrow> nat \<Rightarrow> byte list" where
  "key_word rk i = take 4 (drop (4 * i) rk)"

definition round_key :: "byte list \<Rightarrow> nat \<Rightarrow> byte list" where
  "round_key rk k = take 16 (drop (16 * k) rk)"

definition xor_bytes :: "byte list \<Rightarrow> byte list \<Rightarrow> byte list" where
  "xor_bytes a b = map2 (XOR) a b"

definition schedule_core :: "nat \<Rightarrow> byte list \<Rightarrow> byte list" where
  "schedule_core n w =
     (let w = rotate1 w;
          w = map (\<lambda>b. sbox ! unat b) w
      in w[0 := w ! 0 XOR Rcon ! n])"

text \<open>
  Word \<open>i\<close> of the schedule as the specification derives it from the words before it,
  and the schedule built by appending one word after the other.
\<close>

definition next_word :: "nat \<Rightarrow> byte list \<Rightarrow> byte list" where
  "next_word i W =
     xor_bytes (key_word W (i - 4))
       (if i mod 4 = 0 then schedule_core (i div 4) (key_word W (i - 1))
        else key_word W (i - 1))"

definition expand_key :: "nat list \<Rightarrow> byte list \<Rightarrow> byte list" where
  "expand_key is W = fold (\<lambda>i W. W @ next_word i W) is W"

text \<open>
  The steps of a round on the state, a 4 by 4 matrix of bytes stored by columns (byte
  \<open>r + 4c\<close> is row \<open>r\<close> of column \<open>c\<close>): SubBytes replaces every byte by its S-box image;
  ShiftRows rotates row \<open>r\<close> to the left by \<open>r\<close> positions; MixColumns replaces each
  column by its product with the fixed matrix of FIPS-197 (rows 2 3 1 1, 1 2 3 1,
  1 1 2 3, 3 1 1 2) over GF(2^8), the product with 2 being the doubling \<open>xtime\<close> and the
  product with 3 the doubling XOR the byte itself.
\<close>

definition SubBytes_spec :: "byte list \<Rightarrow> byte list" where
  "SubBytes_spec state = map (\<lambda>b. sbox ! unat b) state"

definition ShiftRows_spec :: "byte list \<Rightarrow> byte list" where
  "ShiftRows_spec state =
     map (\<lambda>n. state ! (n mod 4 + 4 * ((n div 4 + n mod 4) mod 4))) [0..<16]"

definition gmul2 :: "byte \<Rightarrow> byte" where
  "gmul2 x = xtime x"

definition gmul3 :: "byte \<Rightarrow> byte" where
  "gmul3 x = xtime x XOR x"

definition mix_column :: "byte list \<Rightarrow> byte list" where
  "mix_column a =
     [gmul2 (a ! 0) XOR gmul3 (a ! 1) XOR a ! 2 XOR a ! 3,
      a ! 0 XOR gmul2 (a ! 1) XOR gmul3 (a ! 2) XOR a ! 3,
      a ! 0 XOR a ! 1 XOR gmul2 (a ! 2) XOR gmul3 (a ! 3),
      gmul3 (a ! 0) XOR a ! 1 XOR a ! 2 XOR gmul2 (a ! 3)]"

definition MixColumns_spec :: "byte list \<Rightarrow> byte list" where
  "MixColumns_spec state =
     concat (map (\<lambda>c. mix_column (take 4 (drop (4 * c) state))) [0..<4])"

text \<open>
  The procedure of the block cipher core: the initial whitening with round-key block 0,
  the rounds 1 to 9, and the final round without MixColumns. The round keys are those of
  \<open>KeyExpansion\<close>.
\<close>

definition blockEncrypt_spec :: "byte list \<Rightarrow> byte list \<Rightarrow> byte list" where
  "blockEncrypt_spec input key =
     (let rk = KeyExpansion (replicate 176 0) key;
          state = input;
          state = xor_bytes state (round_key rk 0);
          state = fold (\<lambda>round state.
                    xor_bytes (MixColumns_spec (ShiftRows_spec (SubBytes_spec state)))
                      (round_key rk round))
                    [1..<10] state;
          state = xor_bytes (ShiftRows_spec (SubBytes_spec state)) (round_key rk 10)
      in state)"

text \<open>
  The block cipher as a function of the input block and the key: what \<open>aes128e\<close>
  leaves in a 16-byte output buffer. The keystream blocks of OFB are its iterates on the
  IV, and byte \<open>n\<close> of the keystream is byte \<open>n mod 16\<close> of block \<open>n div 16\<close>.
\<close>

definition blockEncrypt :: "byte list \<Rightarrow> byte list \<Rightarrow> byte list" where
  "blockEncrypt input key = aes128e (replicate 16 0) input key"

fun keystream :: "byte list \<Rightarrow> byte list \<Rightarrow> nat \<Rightarrow> byte list" where
  "keystream iv key 0 = blockEncrypt iv key"
| "keystream iv key (Suc n) = blockEncrypt (keystream iv key n) key"

definition keystream_byte :: "byte list \<Rightarrow> byte list \<Rightarrow> nat \<Rightarrow> byte" where
  "keystream_byte iv key n = keystream iv key (n div 16) ! (n mod 16)"

text \<open>
  What the loop over the full blocks, started at the counter \<open>i\<close> in the state \<open>s\<close>, has
  done when it ends in the state \<open>r\<close>; and what the whole call has done.
\<close>

definition OFB_blocks_post ::
  "byte list \<Rightarrow> byte list \<Rightarrow> 32 word \<Rightarrow> 32 word \<Rightarrow> ofb_locals \<Rightarrow> ofb_locals \<Rightarrow> bool" where
  "OFB_blocks_post plaintext key full_blocks i s r =
     (length (ciphertext_buf r) = length (ciphertext_buf s)
      \<and> (\<forall>k < length (ciphertext_buf s).
            ciphertext_buf r ! k =
              (if 16 * unat i \<le> k \<and> k < 16 * unat full_blocks
               then plaintext ! k XOR keystream (feedback s) key (k div 16 - unat i) ! (k mod 16)
               else ciphertext_buf s ! k))
      \<and> feedback r = (if i = full_blocks then feedback s
                       else keystream (feedback s) key (unat full_blocks - unat i - 1))
      \<and> block_out r = (if i = full_blocks then block_out s
                       else keystream (feedback s) key (unat full_blocks - unat i - 1))
      \<and> aes_calls r = aes_calls s + (unat full_blocks - unat i))"

definition OFB_post ::
  "byte list \<Rightarrow> byte list \<Rightarrow> 32 word \<Rightarrow> byte list \<Rightarrow> byte list \<Rightarrow> ofb_locals \<Rightarrow> bool" where
  "OFB_post ciphertext plaintext len iv key r =
     (length (ciphertext_buf r) = length ciphertext
      \<and> (\<forall>k < length ciphertext.
            ciphertext_buf r ! k =
              (if k < unat len then plaintext ! k XOR keystream_byte iv key k
               else ciphertext ! k))
      \<and> feedback r = (if unat len div 16 = 0 then iv
                       else keystream iv key (unat len div 16 - 1))
      \<and> block_out r = (if unat len = 0 then replicate 16 0
                        else keystream iv key ((unat len - 1) div 16))
      \<and> aes_calls r = (unat len + 15) div 16)"

text \<open>
  The local state of the call on memory corresponds to the local state of the call on
  lists: the output region of the memory holds the output list, the local arrays agree,
  and the memory outside the output region is as it was before the call.
\<close>

definition OFB_sim ::
  "memory \<Rightarrow> nat \<Rightarrow> nat \<Rightarrow> ofb_mem_locals \<Rightarrow> ofb_locals \<Rightarrow> bool" where
  "OFB_sim mem ciphertext L sm s =
     (read_bytes (mem_of sm) ciphertext L = ciphertext_buf s
      \<and> mem_block_out sm = block_out s
      \<and> mem_feedback sm = feedback s
      \<and> (\<forall>a. a < ciphertext \<or> ciphertext + L \<le> a \<longrightarrow> mem_of sm a = mem a))"

section \<open>The doubling operation\<close>

text \<open>
  The test \<open>*x & 0x80\<close> is the test of bit 7, and on bytes the integer computation of
  \<open>xtime\<close> is the 8-bit shift XORed with 0x1B or with 0.
\<close>

lemma high_bit_test: "(uint (x::byte) AND 0x80 \<noteq> 0) = bit x 7"
proof -
  have "(uint x AND 2 ^ 7 = 0) = (\<not> bit (uint x) 7)"
    by (rule and_exp_eq_0_iff_not_bit)
  then show ?thesis by (simp add: bit_uint_iff)
qed

lemma xtime_word: "xtime x = push_bit 1 x XOR (if bit x 7 then 0x1b else 0)"
  unfolding xtime_def high_bit_test
  by (simp add: of_int_xor_eq of_int_push_bit)

lemma unat_byte_less: "unat (x::byte) < 256"
  using unsigned_less [of x, where 'a=nat] by simp

lemma bit7_unat: "bit (x::byte) 7 = (128 \<le> unat x)"
proof -
  have "bit x 7 = bit (unat x) 7" by (simp add: bit_unsigned_iff)
  also have "\<dots> = odd (unat x div 128)" by (simp add: bit_iff_odd)
  also have "\<dots> = (128 \<le> unat x)"
  proof (cases "unat x < 128")
    case True
    then show ?thesis by simp
  next
    case False
    then have "unat x div 128 = 1"
      using unat_byte_less [of x] by (intro div_nat_eqI) simp_all
    then show ?thesis using False by simp
  qed
  finally show ?thesis .
qed

lemma double_mod_256:
  fixes u :: nat
  assumes "128 \<le> u" "u < 256"
  shows "(u * 2) mod 256 = 2 * u - 256"
proof -
  have "(u * 2) mod 256 = (u * 2 - 256) mod 256" using assms by (simp add: le_mod_geq)
  also have "\<dots> = u * 2 - 256" using assms by simp
  finally show ?thesis by simp
qed

lemma unat_xtime_low: "\<not> bit (x::byte) 7 \<Longrightarrow> unat (xtime x) = 2 * unat x"
  by (simp add: xtime_word bit7_unat unat_word_ariths)

lemma add_pow_xor:
  fixes r :: nat
  assumes "r < 2 ^ k"
  shows "r + 2 ^ k = r XOR 2 ^ k"
proof (rule disjunctive_add_eq_xor)
  have r: "take_bit k r = r" using assms by (simp add: take_bit_nat_eq_self)
  have "\<not> bit (take_bit k r) k" by (simp add: bit_take_bit_iff)
  then have "\<not> bit r k" using r by simp
  then show "r AND 2 ^ k = 0" by (simp add: and_exp_eq_0_iff_not_bit)
qed

lemma xor_reduce:
  fixes r :: nat
  assumes "r < 256"
  shows "(256 + r) XOR 283 = r XOR 27"
proof -
  have "256 + r = r XOR 256" using add_pow_xor [of r 8] assms by simp
  then have "(256 + r) XOR 283 = (r XOR 256) XOR (256 XOR 27)" by simp
  also have "\<dots> = r XOR ((256 XOR 256) XOR 27)" by (simp only: xor.assoc)
  also have "\<dots> = r XOR 27" by simp
  finally show ?thesis .
qed

lemma unat_xtime_high: "bit (x::byte) 7 \<Longrightarrow> unat (xtime x) = (2 * unat x) XOR 0x11b"
proof -
  assume b: "bit x 7"
  have u: "128 \<le> unat x" "unat x < 256" using b bit7_unat unat_byte_less by auto
  have "unat (xtime x) = (unat x * 2) mod 256 XOR 27"
    using b by (simp add: xtime_word unat_word_ariths unsigned_xor_eq)
  also have "(unat x * 2) mod 256 = 2 * unat x - 256"
    using u by (rule double_mod_256)
  also have "(2 * unat x - 256) XOR 27 = (256 + (2 * unat x - 256)) XOR 283"
    using u by (subst xor_reduce) auto
  also have "\<dots> = (2 * unat x) XOR 0x11b" using u by simp
  finally show ?thesis .
qed

text \<open>
  C8. For every byte \<open>x\<close>, \<open>xtime\<close> returns \<open>(x << 1) XOR 0x1B\<close> when the high bit of \<open>x\<close>
  is set and \<open>x << 1\<close> otherwise, the shift and the result being taken in 8 bits. Read as
  a number, the result is \<open>2 * x\<close> when that is below 256 and \<open>2 * x XOR 0x11B\<close> otherwise:
  the product of the polynomial \<open>x\<close> with the polynomial of the byte, reduced modulo the
  AES polynomial \<open>x^8 + x^4 + x^3 + x + 1\<close> (0x11B) over GF(2).
\<close>

theorem xtime_doubling:
  "xtime x = (if bit x 7 then push_bit 1 x XOR 0x1B else push_bit 1 x)
   \<and> bit x 7 = (256 \<le> 2 * unat x)
   \<and> unat (xtime x) = (if 2 * unat x < 256 then 2 * unat x else 2 * unat x XOR 0x11B)"
proof (cases "bit x 7")
  case True
  then show ?thesis
    using unat_xtime_high [of x] bit7_unat [of x] by (simp add: xtime_word)
next
  case False
  then show ?thesis
    using unat_xtime_low [of x] bit7_unat [of x] by (simp add: xtime_word)
qed

section \<open>Key expansion\<close>

text \<open>
  One iteration of the second loop of \<open>KeyExpansion\<close>, run on a buffer whose first
  \<open>4 * i\<close> bytes \<open>W\<close> are the words computed so far, reads the words \<open>i - 4\<close> and
  \<open>i - 1\<close> of \<open>W\<close> and overwrites the next four bytes of the buffer with \<open>next_word i W\<close>.
  So the two loops turn any 176-byte buffer into \<open>expand_key [4..<44] Key\<close>, and the
  words of that list satisfy the recurrence of the specification.
\<close>

lemma list16:
  assumes "length xs = 16"
  obtains a0 a1 a2 a3 a4 a5 a6 a7 a8 a9 a10 a11 a12 a13 a14 a15
  where "xs = [a0, a1, a2, a3, a4, a5, a6, a7, a8, a9, a10, a11, a12, a13, a14, a15]"
  using assms by (auto simp add: numeral_eq_Suc length_Suc_conv)

lemma KeyExpansion_word_explicit:
  assumes A: "length A = 4 * n"
  shows "KeyExpansion_word (n + 4)
           (A @ [u0, u1, u2, u3, b0, b1, b2, b3, b4, b5, b6, b7, t0, t1, t2, t3, r0, r1, r2, r3] @
               rest)
         = (A @ [u0, u1, u2, u3, b0, b1, b2, b3, b4, b5, b6, b7, t0, t1, t2, t3])
           @ next_word (n + 4) (A @ [u0, u1, u2, u3, b0, b1, b2, b3, b4, b5, b6, b7, t0, t1, t2,
               t3])
           @ rest"
proof -
  have kw: "key_word (A @ [u0, u1, u2, u3, b0, b1, b2, b3, b4, b5, b6, b7, t0, t1, t2, t3]) (n + 4
      - 4) = [u0, u1, u2, u3]"
    using A by (simp add: key_word_def)
  have kt: "key_word (A @ [u0, u1, u2, u3, b0, b1, b2, b3, b4, b5, b6, b7, t0, t1, t2, t3]) (n + 4
      - 1) = [t0, t1, t2, t3]"
    using A by (simp add: key_word_def)
  have nw: "next_word (n + 4) (A @ [u0, u1, u2, u3, b0, b1, b2, b3, b4, b5, b6, b7, t0, t1, t2,
      t3])
      = (if n mod 4 = 0 then [u0 XOR sbox ! unat t1 XOR Rcon ! ((n + 4) div 4), u1 XOR sbox ! unat
          t2, u2 XOR sbox ! unat t3, u3 XOR sbox ! unat t0]
         else [u0 XOR t0, u1 XOR t1, u2 XOR t2, u3 XOR t3])"
    by (simp only: next_word_def kw kt) (simp add: xor_bytes_def schedule_core_def)
  have "KeyExpansion_word (n + 4)
           (A @ [u0, u1, u2, u3, b0, b1, b2, b3, b4, b5, b6, b7, t0, t1, t2, t3, r0, r1, r2, r3] @
               rest)
     = A @ [u0, u1, u2, u3, b0, b1, b2, b3, b4, b5, b6, b7, t0, t1, t2, t3] @
       (if n mod 4 = 0 then [u0 XOR sbox ! unat t1 XOR Rcon ! ((n + 4) div 4), u1 XOR sbox ! unat
           t2, u2 XOR sbox ! unat t3, u3 XOR sbox ! unat t0]
         else [u0 XOR t0, u1 XOR t1, u2 XOR t2, u3 XOR t3]) @ rest"
    using A
    by (simp add: KeyExpansion_word_def Nk_def nth_append list_update_append)
  then show ?thesis by (simp only: nw append_assoc)
qed

lemma list4_plus:
  assumes "4 \<le> length xs"
  obtains r0 r1 r2 r3 rest where "xs = r0 # r1 # r2 # r3 # rest"
  using assms by (auto simp add: numeral_eq_Suc Suc_le_length_iff)

lemma length_next_word:
  assumes "length W = 4 * i" "4 \<le> i"
  shows "length (next_word i W) = 4"
  using assms by (simp add: next_word_def xor_bytes_def key_word_def schedule_core_def Let_def)

lemma KeyExpansion_word_append:
  assumes W: "length W = 4 * i" and i: "4 \<le> i" and rest: "4 \<le> length rest"
  shows "KeyExpansion_word i (W @ rest) = W @ next_word i W @ drop 4 rest"
proof -
  define n where "n = i - 4"
  define A where "A = take (4 * n) W"
  have i_eq: "i = n + 4" using i by (simp add: n_def)
  have lenA: "length A = 4 * n" using W by (simp add: A_def i_eq)
  have "length (drop (4 * n) W) = 16" using W by (simp add: i_eq)
  then obtain u0 u1 u2 u3 b0 b1 b2 b3 b4 b5 b6 b7 t0 t1 t2 t3
    where d: "drop (4 * n) W = [u0, u1, u2, u3, b0, b1, b2, b3, b4, b5, b6, b7, t0, t1, t2, t3]"
    by (rule list16)
  have Weq: "W = A @ [u0, u1, u2, u3, b0, b1, b2, b3, b4, b5, b6, b7, t0, t1, t2, t3]"
    using append_take_drop_id [of "4 * n" W] by (simp add: A_def d)
  obtain r0 r1 r2 r3 rest' where r: "rest = r0 # r1 # r2 # r3 # rest'"
    using rest by (rule list4_plus)
  have "KeyExpansion_word (n + 4)
          (A @ [u0, u1, u2, u3, b0, b1, b2, b3, b4, b5, b6, b7, t0, t1, t2, t3, r0, r1, r2, r3] @
              rest')
        = (A @ [u0, u1, u2, u3, b0, b1, b2, b3, b4, b5, b6, b7, t0, t1, t2, t3])
          @ next_word (n + 4) (A @ [u0, u1, u2, u3, b0, b1, b2, b3, b4, b5, b6, b7, t0, t1, t2,
              t3])
          @ rest'"
    using lenA by (rule KeyExpansion_word_explicit)
  then show ?thesis by (simp add: Weq r i_eq)
qed

lemma fold_KeyExpansion_word:
  assumes "length W = 4 * i" "4 \<le> i" "length rest = 4 * n"
  shows "fold KeyExpansion_word [i..<i + n] (W @ rest) = expand_key [i..<i + n] W"
  using assms
proof (induction n arbitrary: i W rest)
  case 0
  then show ?case by (simp add: expand_key_def)
next
  case (Suc n)
  have up: "[i..<i + Suc n] = i # [Suc i..<Suc i + n]" by (simp add: upt_conv_Cons)
  have lr: "4 \<le> length rest" using Suc.prems(3) by simp
  have step: "KeyExpansion_word i (W @ rest) = (W @ next_word i W) @ drop 4 rest"
    using KeyExpansion_word_append [OF Suc.prems(1) Suc.prems(2) lr] by simp
  have lw: "length (W @ next_word i W) = 4 * Suc i"
    using Suc.prems(1) length_next_word [OF Suc.prems(1) Suc.prems(2)] by simp
  have "fold KeyExpansion_word [Suc i..<Suc i + n] ((W @ next_word i W) @ drop 4 rest)
        = expand_key [Suc i..<Suc i + n] (W @ next_word i W)"
    using Suc.prems by (intro Suc.IH lw) simp_all
  then show ?case by (simp only: up fold_Cons comp_apply step expand_key_def)
qed

lemma KeyExpansion_copy_loop:
  assumes "length Key = 16" "16 \<le> length RoundKey"
  shows "fold (KeyExpansion_copy Key) [0..<Nk] RoundKey = Key @ drop 16 RoundKey"
proof -
  obtain k0 k1 k2 k3 k4 k5 k6 k7 k8 k9 k10 k11 k12 k13 k14 k15
    where k: "Key = [k0, k1, k2, k3, k4, k5, k6, k7, k8, k9, k10, k11, k12, k13, k14, k15]"
    using assms(1) by (rule list16)
  have "length (take 16 RoundKey) = 16" using assms(2) by simp
  then obtain r0 r1 r2 r3 r4 r5 r6 r7 r8 r9 r10 r11 r12 r13 r14 r15
    where "take 16 RoundKey = [r0, r1, r2, r3, r4, r5, r6, r7, r8, r9, r10, r11, r12, r13, r14,
        r15]"
    by (rule list16)
  then have r: "RoundKey = [r0, r1, r2, r3, r4, r5, r6, r7, r8, r9, r10, r11, r12, r13, r14, r15]
      @ drop 16 RoundKey"
    using append_take_drop_id [of 16 RoundKey] by simp
  have upt_0_4: "[0..<4] = [0, 1, 2, 3::nat]" by (simp add: upt_conv_Cons)
  show ?thesis
    by (subst r) (simp add: k Nk_def upt_0_4 KeyExpansion_copy_def)
qed

lemma KeyExpansion_expand:
  assumes "length Key = 16" "length RoundKey = 176"
  shows "KeyExpansion RoundKey Key = expand_key [4..<44] Key"
proof -
  have c: "fold (KeyExpansion_copy Key) [0..<Nk] RoundKey = Key @ drop 16 RoundKey"
    using assms by (intro KeyExpansion_copy_loop) simp_all
  have n: "[Nk..<Nb * (Nr + 1)] = [4..<4 + 40]" by (simp only: Nk_def Nb_def Nr_def) simp
  have e: "[4..<4 + 40] = [4..<44]" by simp
  have "fold KeyExpansion_word [4..<4 + 40] (Key @ drop 16 RoundKey) = expand_key [4..<4 + 40]
      Key"
    using assms by (intro fold_KeyExpansion_word) simp_all
  then show ?thesis by (simp only: KeyExpansion_def c n e)
qed

lemma expand_key_Cons: "expand_key (i # is) W = expand_key is (W @ next_word i W)"
  by (simp add: expand_key_def)

lemma expand_key_prefix: "\<exists>ext. expand_key is W = W @ ext"
proof (induction "is" arbitrary: W)
  case Nil
  then show ?case by (simp add: expand_key_def)
next
  case (Cons i "is")
  obtain ext where "expand_key is (W @ next_word i W) = (W @ next_word i W) @ ext"
    using Cons.IH by blast
  then show ?case by (simp add: expand_key_Cons)
qed

lemma key_word_append:
  assumes "4 * m + 4 \<le> length W"
  shows "key_word (W @ X) m = key_word W m"
  using assms by (simp add: key_word_def)

lemma next_word_append:
  assumes "4 * i \<le> length W" "4 \<le> i"
  shows "next_word i (W @ X) = next_word i W"
proof -
  have "key_word (W @ X) (i - 4) = key_word W (i - 4)"
    using assms by (intro key_word_append) simp
  moreover have "key_word (W @ X) (i - 1) = key_word W (i - 1)"
    using assms by (intro key_word_append) simp
  ultimately show ?thesis by (simp add: next_word_def)
qed

lemma length_expand_key:
  assumes "length W = 4 * i" "4 \<le> i"
  shows "length (expand_key [i..<i + n] W) = 4 * (i + n)"
  using assms
proof (induction n arbitrary: i W)
  case 0
  then show ?case by (simp add: expand_key_def)
next
  case (Suc n)
  have up: "[i..<i + Suc n] = i # [Suc i..<Suc i + n]" by (simp add: upt_conv_Cons)
  have lw: "length (W @ next_word i W) = 4 * Suc i"
    using Suc.prems length_next_word [OF Suc.prems] by simp
  have "length (expand_key [Suc i..<Suc i + n] (W @ next_word i W)) = 4 * (Suc i + n)"
    using Suc.prems by (intro Suc.IH lw) simp
  then show ?case by (simp only: up expand_key_Cons) simp
qed

lemma expand_key_recurrence:
  assumes "length W = 4 * i" "4 \<le> i" "i \<le> j" "j < i + n"
  shows "key_word (expand_key [i..<i + n] W) j = next_word j (expand_key [i..<i + n] W)"
  using assms
proof (induction n arbitrary: i W)
  case 0
  then show ?case by simp
next
  case (Suc n)
  have up: "[i..<i + Suc n] = i # [Suc i..<Suc i + n]" by (simp add: upt_conv_Cons)
  have ln: "length (next_word i W) = 4" using Suc.prems(1,2) by (rule length_next_word)
  have lw: "length (W @ next_word i W) = 4 * Suc i" using Suc.prems(1) ln by simp
  show ?case
  proof (cases "j = i")
    case True
    obtain ext where e: "expand_key [Suc i..<Suc i + n] (W @ next_word i W) = (W @ next_word i W)
        @ ext"
      using expand_key_prefix by blast
    have "key_word (W @ next_word i W @ ext) i = next_word i W"
      using Suc.prems(1) ln by (simp add: key_word_def)
    moreover have "next_word i (W @ next_word i W @ ext) = next_word i W"
      using Suc.prems(1,2) by (intro next_word_append) simp_all
    ultimately show ?thesis by (simp only: up expand_key_Cons e True append_assoc)
  next
    case False
    have "key_word (expand_key [Suc i..<Suc i + n] (W @ next_word i W)) j
          = next_word j (expand_key [Suc i..<Suc i + n] (W @ next_word i W))"
      using Suc.prems False by (intro Suc.IH lw) simp_all
    then show ?thesis by (simp only: up expand_key_Cons)
  qed
qed

lemma expand_key_take:
  "take (length W) (expand_key is W) = W"
proof -
  obtain ext where "expand_key is W = W @ ext" using expand_key_prefix by blast
  then show ?thesis by simp
qed

text \<open>
  C4. For every 16-byte key, \<open>KeyExpansion\<close> fills the 176-byte buffer with 11 round-key
  blocks of 16 bytes, whatever the buffer held before. Block 0 is the key. Each 4-byte
  word \<open>w[i]\<close>, for \<open>i\<close> from 4 to 43, is \<open>w[i - 4]\<close> XOR \<open>w[i - 1]\<close>, where \<open>w[i - 1]\<close> is
  first rotated left by one byte, substituted bytewise through the S-box and XORed in its
  first byte with \<open>Rcon[i / 4]\<close> exactly when \<open>i\<close> is a multiple of 4.
\<close>

theorem KeyExpansion_schedule:
  assumes "length Key = 16" and "length RoundKey = 176"
  shows "length (KeyExpansion RoundKey Key) = 176
       \<and> (\<forall>k. k \<le> 10 \<longrightarrow> length (round_key (KeyExpansion RoundKey Key) k) = 16)
       \<and> round_key (KeyExpansion RoundKey Key) 0 = Key
       \<and> (\<forall>i. 4 \<le> i \<and> i < 44 \<longrightarrow>
             key_word (KeyExpansion RoundKey Key) i =
               xor_bytes (key_word (KeyExpansion RoundKey Key) (i - 4))
                 (if i mod 4 = 0
                  then schedule_core (i div 4) (key_word (KeyExpansion RoundKey Key) (i - 1))
                  else key_word (KeyExpansion RoundKey Key) (i - 1)))"
proof -
  have K: "KeyExpansion RoundKey Key = expand_key [4..<4 + 40] Key"
    using KeyExpansion_expand [OF assms] by simp
  have l: "length (expand_key [4..<4 + 40] Key) = 176"
    using length_expand_key [of Key 4 40] assms(1) by simp
  have t: "take 16 (expand_key [4..<4 + 40] Key) = Key"
    using expand_key_take [of Key "[4..<4 + 40]"] assms(1) by simp
  have r: "key_word (expand_key [4..<4 + 40] Key) i = next_word i (expand_key [4..<4 + 40] Key)"
    if "4 \<le> i" "i < 44" for i
    using assms(1) that by (intro expand_key_recurrence) simp_all
  have b: "length (round_key (expand_key [4..<4 + 40] Key) k) = 16" if "k \<le> 10" for k
    using l that by (simp add: round_key_def)
  have z: "round_key (expand_key [4..<4 + 40] Key) 0 = Key"
    using t by (simp add: round_key_def)
  show ?thesis
    unfolding K using l b z r by (simp add: next_word_def)
qed

theorem KeyExpansion_schedule_witness:
  "length (replicate 16 (0::byte)) = 16 \<and> length (replicate 176 (0::byte)) = 176
   \<and> (4::nat) \<le> 4 \<and> (4::nat) < 44
   \<and> key_word (KeyExpansion (replicate 176 0) (replicate 16 0)) 4
       = xor_bytes (key_word (KeyExpansion (replicate 176 0) (replicate 16 0)) 0)
           (schedule_core 1 (key_word (KeyExpansion (replicate 176 0) (replicate 16 0)) 3))"
proof -
  have h: "length (replicate 16 (0::byte)) = 16" "length (replicate 176 (0::byte)) = 176"
    by simp_all
  have "\<forall>i. 4 \<le> i \<and> i < 44 \<longrightarrow>
             key_word (KeyExpansion (replicate 176 0) (replicate 16 0)) i =
               xor_bytes (key_word (KeyExpansion (replicate 176 0) (replicate 16 0)) (i - 4))
                 (if i mod 4 = 0
                  then schedule_core (i div 4) (key_word (KeyExpansion (replicate 176 0)
                      (replicate 16 0)) (i - 1))
                  else key_word (KeyExpansion (replicate 176 0) (replicate 16 0)) (i - 1))"
    using KeyExpansion_schedule [OF h] by blast
  from this [rule_format, of 4] show ?thesis by simp
qed

section \<open>The rounds\<close>

text \<open>
  On a state of 16 bytes each in-place step of the source is the step of the
  specification, and \<open>AddRoundKey\<close> is the XOR with the round-key block. The loops of
  \<open>SubBytes\<close>, \<open>ShiftRows\<close> and \<open>MixColumns\<close> are unrolled on a state written out as
  sixteen bytes.
\<close>

lemma upt_0_16: "[0..<16] = [0, 1, 2, 3, 4, 5, 6, 7, 8, 9, 10, 11, 12, 13, 14, 15::nat]"
  by (simp add: upt_conv_Cons)

lemma upt_0_4: "[0..<4] = [0, 1, 2, 3::nat]"
  by (simp add: upt_conv_Cons)

lemma SubBytes_refines:
  assumes "length state = 16"
  shows "SubBytes state = SubBytes_spec state"
proof -
  obtain a0 a1 a2 a3 a4 a5 a6 a7 a8 a9 a10 a11 a12 a13 a14 a15
    where "state = [a0, a1, a2, a3, a4, a5, a6, a7, a8, a9, a10, a11, a12, a13, a14, a15]"
    using assms by (rule list16)
  then show ?thesis by (simp add: SubBytes_def SubBytes_spec_def upt_0_16)
qed

lemma ShiftRows_refines:
  assumes "length state = 16"
  shows "ShiftRows state = ShiftRows_spec state"
proof -
  obtain a0 a1 a2 a3 a4 a5 a6 a7 a8 a9 a10 a11 a12 a13 a14 a15
    where "state = [a0, a1, a2, a3, a4, a5, a6, a7, a8, a9, a10, a11, a12, a13, a14, a15]"
    using assms by (rule list16)
  then show ?thesis by (simp add: ShiftRows_def ShiftRows_spec_def upt_0_16)
qed

lemma xtime_xor: "xtime (a XOR b) = xtime a XOR xtime b"
proof -
  have "(if bit (a XOR b) 7 then (0x1b::byte) else 0)
        = (if bit a 7 then 0x1b else 0) XOR (if bit b 7 then 0x1b else 0)"
    by (simp add: bit_xor_iff)
  then show ?thesis
    by (simp only: xtime_word push_bit_xor) (simp add: ac_simps)
qed

lemma MixColumns_refines:
  assumes "length state = 16"
  shows "MixColumns state = MixColumns_spec state"
proof -
  obtain a0 a1 a2 a3 a4 a5 a6 a7 a8 a9 a10 a11 a12 a13 a14 a15
    where "state = [a0, a1, a2, a3, a4, a5, a6, a7, a8, a9, a10, a11, a12, a13, a14, a15]"
    using assms by (rule list16)
  then show ?thesis
    by (simp add: MixColumns_def MixColumns_column_def MixColumns_spec_def mix_column_def
        gmul2_def gmul3_def upt_0_4 Let_def xtime_xor ac_simps)
qed

lemma fold_update_upt:
  assumes "n \<le> length s"
  shows "fold (\<lambda>i s. s[i := g i (s ! i)]) [0..<n] s = map (\<lambda>i. g i (s ! i)) [0..<n] @ drop n s"
  using assms
proof (induction n)
  case 0
  then show ?case by simp
next
  case (Suc n)
  have n: "n < length s" using Suc.prems by simp
  have IH: "fold (\<lambda>i s. s[i := g i (s ! i)]) [0..<n] s = map (\<lambda>i. g i (s ! i)) [0..<n] @ drop n s"
    using Suc by simp
  have d: "drop n s = s ! n # drop (Suc n) s" using n by (simp add: Cons_nth_drop_Suc)
  show ?case
    by (simp add: IH d nth_append list_update_append)
qed

lemma AddRoundKey_refines:
  assumes "length state = 16" "16 * round + 16 \<le> length RoundKey"
  shows "AddRoundKey round state RoundKey = xor_bytes state (round_key RoundKey round)"
proof -
  have "AddRoundKey round state RoundKey
        = map (\<lambda>i. state ! i XOR RoundKey ! ((round * Nb * 4) + i)) [0..<16] @ drop 16 state"
    unfolding AddRoundKey_def using assms(1)
    by (intro fold_update_upt [where g = "\<lambda>i b. b XOR RoundKey ! ((round * Nb * 4) + i)"]) simp
  also have "\<dots> = map (\<lambda>i. state ! i XOR RoundKey ! (16 * round + i)) [0..<16]"
    using assms(1) by (simp add: Nb_def mult.commute)
  also have "\<dots> = xor_bytes state (round_key RoundKey round)"
    using assms by (intro nth_equalityI) (simp_all add: xor_bytes_def round_key_def)
  finally show ?thesis .
qed

lemma length_xor_bytes: "length (xor_bytes a b) = min (length a) (length b)"
  by (simp add: xor_bytes_def)

lemma length_round_key: "16 * k + 16 \<le> length rk \<Longrightarrow> length (round_key rk k) = 16"
  by (simp add: round_key_def)

lemma length_SubBytes_spec: "length (SubBytes_spec s) = length s"
  by (simp add: SubBytes_spec_def)

lemma length_ShiftRows_spec: "length (ShiftRows_spec s) = 16"
  by (simp add: ShiftRows_spec_def)

lemma length_MixColumns_spec: "length s = 16 \<Longrightarrow> length (MixColumns_spec s) = 16"
  by (simp add: MixColumns_spec_def mix_column_def upt_0_4)

lemma aes128e_round_refines:
  assumes "length state = 16" "16 * round + 16 \<le> length RoundKey"
  shows "aes128e_round RoundKey round state
         = xor_bytes (MixColumns_spec (ShiftRows_spec (SubBytes_spec state))) (round_key RoundKey
             round)"
   and "length (aes128e_round RoundKey round state) = 16"
proof -
  have 1: "SubBytes state = SubBytes_spec state" using assms(1) by (rule SubBytes_refines)
  have 2: "ShiftRows (SubBytes_spec state) = ShiftRows_spec (SubBytes_spec state)"
    using assms(1) by (intro ShiftRows_refines) (simp add: length_SubBytes_spec)
  have 3: "MixColumns (ShiftRows_spec (SubBytes_spec state))
           = MixColumns_spec (ShiftRows_spec (SubBytes_spec state))"
    by (intro MixColumns_refines) (simp add: length_ShiftRows_spec)
  have 4: "AddRoundKey round (MixColumns_spec (ShiftRows_spec (SubBytes_spec state))) RoundKey
           = xor_bytes (MixColumns_spec (ShiftRows_spec (SubBytes_spec state))) (round_key
               RoundKey round)"
    using assms(2)
    by (intro AddRoundKey_refines) (simp_all add: length_MixColumns_spec length_ShiftRows_spec)
  show e: "aes128e_round RoundKey round state
         = xor_bytes (MixColumns_spec (ShiftRows_spec (SubBytes_spec state))) (round_key RoundKey
             round)"
    by (simp add: aes128e_round_def 1 2 3 4)
  show "length (aes128e_round RoundKey round state) = 16"
    using assms(2)
    by (simp add: e length_xor_bytes length_round_key length_MixColumns_spec
        length_ShiftRows_spec)
qed

lemma fold_aes128e_round:
  assumes "length state = 16" "length RoundKey = 176" "i + n \<le> 11"
  shows "fold (aes128e_round RoundKey) [i..<i + n] state
         = fold (\<lambda>round state.
                    xor_bytes (MixColumns_spec (ShiftRows_spec (SubBytes_spec state)))
                      (round_key RoundKey round)) [i..<i + n] state
       \<and> length (fold (aes128e_round RoundKey) [i..<i + n] state) = 16"
  using assms
proof (induction n arbitrary: state)
  case 0
  then show ?case by simp
next
  case (Suc n)
  let ?s = "fold (aes128e_round RoundKey) [i..<i + n] state"
  have IH0: "?s = fold (\<lambda>round state.
                    xor_bytes (MixColumns_spec (ShiftRows_spec (SubBytes_spec state)))
                      (round_key RoundKey round)) [i..<i + n] state \<and> length ?s = 16"
    using Suc.prems by (intro Suc.IH) simp_all
  note IH = IH0 [THEN conjunct1] IH0 [THEN conjunct2]
  have b: "16 * (i + n) + 16 \<le> length RoundKey" using Suc.prems by simp
  have up: "[i..<i + Suc n] = [i..<i + n] @ [i + n]" by simp
  show ?case
    unfolding up fold_append comp_apply fold_Cons fold_Nil id_apply
    using aes128e_round_refines [OF IH(2) b] IH(1) by simp
qed

lemma length_KeyExpansion:
  assumes "length Key = 16" "length RoundKey = 176"
  shows "length (KeyExpansion RoundKey Key) = 176"
proof -
  have "length (expand_key [4..<4 + 40] Key) = 4 * (4 + 40)"
    using assms(1) by (intro length_expand_key) simp_all
  then show ?thesis using KeyExpansion_expand [OF assms] by simp
qed

lemma aes128e_eq:
  assumes key: "length key = 16" and inp: "16 \<le> length input"
  shows "aes128e output input key = blockEncrypt_spec (take 16 input) key @ drop 16 output"
    and "length (blockEncrypt_spec (take 16 input) key) = 16"
proof -
  define rk where "rk = KeyExpansion (replicate 176 0) key"
  define s0 where "s0 = xor_bytes (take 16 input) (round_key rk 0)"
  define s9 where "s9 = fold (aes128e_round rk) [1..<1 + 9] s0"
  define s10 where "s10 = xor_bytes (ShiftRows_spec (SubBytes_spec s9)) (round_key rk 10)"
  have lrk: "length rk = 176"
    unfolding rk_def using key by (intro length_KeyExpansion) simp_all
  have m: "memcpy (replicate 16 0) input 16 = take 16 input"
    by (simp add: memcpy_def)
  have lt: "length (take 16 input) = 16" using inp by simp
  have a0: "AddRoundKey 0 (take 16 input) rk = s0"
    unfolding s0_def using lt lrk by (intro AddRoundKey_refines) simp_all
  have ls0: "length s0 = 16"
    using lt lrk by (simp add: s0_def length_xor_bytes length_round_key)
  have f: "s9 = fold (\<lambda>round state.
                    xor_bytes (MixColumns_spec (ShiftRows_spec (SubBytes_spec state)))
                      (round_key rk round)) [1..<1 + 9] s0 \<and> length s9 = 16"
    unfolding s9_def using ls0 lrk by (intro fold_aes128e_round) simp_all
  have ls9: "length s9 = 16" by (rule f [THEN conjunct2])
  have sb: "SubBytes s9 = SubBytes_spec s9" using ls9 by (rule SubBytes_refines)
  have sr: "ShiftRows (SubBytes_spec s9) = ShiftRows_spec (SubBytes_spec s9)"
    using ls9 by (intro ShiftRows_refines) (simp add: length_SubBytes_spec)
  have a10: "AddRoundKey 10 (ShiftRows_spec (SubBytes_spec s9)) rk = s10"
    unfolding s10_def using lrk by (intro AddRoundKey_refines) (simp_all add:
        length_ShiftRows_spec)
  have ls10: "length s10 = 16"
    using lrk by (simp add: s10_def length_xor_bytes length_round_key length_ShiftRows_spec)
  have nine: "[1..<10] = [1..<1 + 9]" by simp
  have code: "aes128e output input key = memcpy output s10 16"
    by (simp only: aes128e_def Let_def m Nr_def nine rk_def [symmetric] a0 s9_def [symmetric]
          sb sr a10)
  have spec: "blockEncrypt_spec (take 16 input) key = s10"
    by (simp only: blockEncrypt_spec_def Let_def nine rk_def [symmetric] s0_def [symmetric]
          f [THEN conjunct1, symmetric] s10_def [symmetric])
  show "aes128e output input key = blockEncrypt_spec (take 16 input) key @ drop 16 output"
    using ls10 by (simp add: code spec memcpy_def)
  show "length (blockEncrypt_spec (take 16 input) key) = 16"
    using ls10 by (simp add: spec)
qed

text \<open>
  C3. For every 16-byte input block and 16-byte key, \<open>aes128e\<close> leaves in its output
  buffer the block that the procedure of the specification computes: the input XOR
  round-key block 0; then, for the rounds 1 to 9, SubBytes, ShiftRows, MixColumns and the
  XOR with the round-key block of the round, in this order; then SubBytes, ShiftRows and
  the XOR with round-key block 10, without MixColumns.
\<close>

theorem aes128e_rounds:
  assumes "length input = 16" and "length key = 16" and "length output = 16"
  shows "aes128e output input key = blockEncrypt_spec input key"
  using aes128e_eq(1) [of key input "output"] assms by simp

theorem aes128e_rounds_witness:
  "length (replicate 16 (0::byte)) = 16
   \<and> aes128e (replicate 16 0) (replicate 16 0) (replicate 16 0)
       = blockEncrypt_spec (replicate 16 0) (replicate 16 0)"
  using aes128e_rounds [of "replicate 16 0" "replicate 16 0" "replicate 16 0"] by simp

section \<open>Evaluation on known vectors\<close>

text \<open>
  The steps of a round on a state written out as sixteen bytes. With them the simplifier
  evaluates the cipher on concrete blocks, round by round.
\<close>

lemma SubBytes_spec_16:
  "SubBytes_spec [a0, a1, a2, a3, a4, a5, a6, a7, a8, a9, a10, a11, a12, a13, a14, a15]
   = [sbox ! unat a0, sbox ! unat a1, sbox ! unat a2, sbox ! unat a3, sbox ! unat a4, sbox ! unat
       a5, sbox ! unat a6, sbox ! unat a7, sbox ! unat a8, sbox ! unat a9, sbox ! unat a10, sbox !
       unat a11, sbox ! unat a12, sbox ! unat a13, sbox ! unat a14, sbox ! unat a15]"
  by (simp add: SubBytes_spec_def)

lemma ShiftRows_spec_16:
  "ShiftRows_spec [a0, a1, a2, a3, a4, a5, a6, a7, a8, a9, a10, a11, a12, a13, a14, a15]
   = [a0, a5, a10, a15, a4, a9, a14, a3, a8, a13, a2, a7, a12, a1, a6, a11]"
  by (simp add: ShiftRows_spec_def upt_0_16)

lemma MixColumns_spec_16:
  "MixColumns_spec [a0, a1, a2, a3, a4, a5, a6, a7, a8, a9, a10, a11, a12, a13, a14, a15]
   = [gmul2 a0 XOR gmul3 a1 XOR a2 XOR a3,
      a0 XOR gmul2 a1 XOR gmul3 a2 XOR a3,
      a0 XOR a1 XOR gmul2 a2 XOR gmul3 a3,
      gmul3 a0 XOR a1 XOR a2 XOR gmul2 a3,
      gmul2 a4 XOR gmul3 a5 XOR a6 XOR a7,
      a4 XOR gmul2 a5 XOR gmul3 a6 XOR a7,
      a4 XOR a5 XOR gmul2 a6 XOR gmul3 a7,
      gmul3 a4 XOR a5 XOR a6 XOR gmul2 a7,
      gmul2 a8 XOR gmul3 a9 XOR a10 XOR a11,
      a8 XOR gmul2 a9 XOR gmul3 a10 XOR a11,
      a8 XOR a9 XOR gmul2 a10 XOR gmul3 a11,
      gmul3 a8 XOR a9 XOR a10 XOR gmul2 a11,
      gmul2 a12 XOR gmul3 a13 XOR a14 XOR a15,
      a12 XOR gmul2 a13 XOR gmul3 a14 XOR a15,
      a12 XOR a13 XOR gmul2 a14 XOR gmul3 a15,
      gmul3 a12 XOR a13 XOR a14 XOR gmul2 a15]"
  by (simp add: MixColumns_spec_def mix_column_def upt_0_4)

lemma xor_bytes_16:
  "xor_bytes [a0, a1, a2, a3, a4, a5, a6, a7, a8, a9, a10, a11, a12, a13, a14, a15]
     [b0, b1, b2, b3, b4, b5, b6, b7, b8, b9, b10, b11, b12, b13, b14, b15]
   = [a0 XOR b0, a1 XOR b1, a2 XOR b2, a3 XOR b3, a4 XOR b4, a5 XOR b5, a6 XOR b6, a7 XOR b7, a8
       XOR b8, a9 XOR b9, a10 XOR b10, a11 XOR b11, a12 XOR b12, a13 XOR b13, a14 XOR b14, a15 XOR
       b15]"
  by (simp add: xor_bytes_def)

lemma rounds_1_to_9: "[1..<10] = [1, 2, 3, 4, 5, 6, 7, 8, 9::nat]"
  by (simp add: upt_conv_Cons)

lemmas round_eval = SubBytes_spec_16 ShiftRows_spec_16 MixColumns_spec_16 xor_bytes_16
  gmul2_def gmul3_def xtime_word sbox_def

lemmas schedule_eval = expand_key_def next_word_def key_word_def xor_bytes_def
  schedule_core_def sbox_def Rcon_def round_key_def

text \<open>The eleven round keys of the all-zero key.\<close>

lemma round_keys_zero:
  "map (round_key (KeyExpansion (replicate 176 0)
      [0x00, 0x00, 0x00, 0x00, 0x00, 0x00, 0x00, 0x00, 0x00, 0x00, 0x00, 0x00, 0x00,
       0x00, 0x00, 0x00]))
     [0, 1, 2, 3, 4, 5, 6, 7, 8, 9, 10]
   = [[0x00, 0x00, 0x00, 0x00, 0x00, 0x00, 0x00, 0x00, 0x00, 0x00, 0x00, 0x00, 0x00,
       0x00, 0x00, 0x00],
      [0x62, 0x63, 0x63, 0x63, 0x62, 0x63, 0x63, 0x63, 0x62, 0x63, 0x63, 0x63, 0x62,
       0x63, 0x63, 0x63],
      [0x9B, 0x98, 0x98, 0xC9, 0xF9, 0xFB, 0xFB, 0xAA, 0x9B, 0x98, 0x98, 0xC9, 0xF9,
       0xFB, 0xFB, 0xAA],
      [0x90, 0x97, 0x34, 0x50, 0x69, 0x6C, 0xCF, 0xFA, 0xF2, 0xF4, 0x57, 0x33, 0x0B,
       0x0F, 0xAC, 0x99],
      [0xEE, 0x06, 0xDA, 0x7B, 0x87, 0x6A, 0x15, 0x81, 0x75, 0x9E, 0x42, 0xB2, 0x7E,
       0x91, 0xEE, 0x2B],
      [0x7F, 0x2E, 0x2B, 0x88, 0xF8, 0x44, 0x3E, 0x09, 0x8D, 0xDA, 0x7C, 0xBB, 0xF3,
       0x4B, 0x92, 0x90],
      [0xEC, 0x61, 0x4B, 0x85, 0x14, 0x25, 0x75, 0x8C, 0x99, 0xFF, 0x09, 0x37, 0x6A,
       0xB4, 0x9B, 0xA7],
      [0x21, 0x75, 0x17, 0x87, 0x35, 0x50, 0x62, 0x0B, 0xAC, 0xAF, 0x6B, 0x3C, 0xC6,
       0x1B, 0xF0, 0x9B],
      [0x0E, 0xF9, 0x03, 0x33, 0x3B, 0xA9, 0x61, 0x38, 0x97, 0x06, 0x0A, 0x04, 0x51,
       0x1D, 0xFA, 0x9F],
      [0xB1, 0xD4, 0xD8, 0xE2, 0x8A, 0x7D, 0xB9, 0xDA, 0x1D, 0x7B, 0xB3, 0xDE, 0x4C,
       0x66, 0x49, 0x41],
      [0xB4, 0xEF, 0x5B, 0xCB, 0x3E, 0x92, 0xE2, 0x11, 0x23, 0xE9, 0x51, 0xCF, 0x6F,
       0x8F, 0x18, 0x8E]]"
proof -
  have "KeyExpansion (replicate 176 0)
      [0x00, 0x00, 0x00, 0x00, 0x00, 0x00, 0x00, 0x00, 0x00, 0x00, 0x00, 0x00, 0x00,
       0x00, 0x00, 0x00]
    = expand_key [4..<44]
      [0x00, 0x00, 0x00, 0x00, 0x00, 0x00, 0x00, 0x00, 0x00, 0x00, 0x00, 0x00, 0x00,
       0x00, 0x00, 0x00]"
    by (rule KeyExpansion_expand) simp_all
  then show ?thesis by (simp add: schedule_eval)
qed

text \<open>The eleven round keys of the key of FIPS-197, Appendix B.\<close>

lemma round_keys_fips_b:
  "map (round_key (KeyExpansion (replicate 176 0)
      [0x2B, 0x7E, 0x15, 0x16, 0x28, 0xAE, 0xD2, 0xA6, 0xAB, 0xF7, 0x15, 0x88, 0x09,
       0xCF, 0x4F, 0x3C]))
     [0, 1, 2, 3, 4, 5, 6, 7, 8, 9, 10]
   = [[0x2B, 0x7E, 0x15, 0x16, 0x28, 0xAE, 0xD2, 0xA6, 0xAB, 0xF7, 0x15, 0x88, 0x09,
       0xCF, 0x4F, 0x3C],
      [0xA0, 0xFA, 0xFE, 0x17, 0x88, 0x54, 0x2C, 0xB1, 0x23, 0xA3, 0x39, 0x39, 0x2A,
       0x6C, 0x76, 0x05],
      [0xF2, 0xC2, 0x95, 0xF2, 0x7A, 0x96, 0xB9, 0x43, 0x59, 0x35, 0x80, 0x7A, 0x73,
       0x59, 0xF6, 0x7F],
      [0x3D, 0x80, 0x47, 0x7D, 0x47, 0x16, 0xFE, 0x3E, 0x1E, 0x23, 0x7E, 0x44, 0x6D,
       0x7A, 0x88, 0x3B],
      [0xEF, 0x44, 0xA5, 0x41, 0xA8, 0x52, 0x5B, 0x7F, 0xB6, 0x71, 0x25, 0x3B, 0xDB,
       0x0B, 0xAD, 0x00],
      [0xD4, 0xD1, 0xC6, 0xF8, 0x7C, 0x83, 0x9D, 0x87, 0xCA, 0xF2, 0xB8, 0xBC, 0x11,
       0xF9, 0x15, 0xBC],
      [0x6D, 0x88, 0xA3, 0x7A, 0x11, 0x0B, 0x3E, 0xFD, 0xDB, 0xF9, 0x86, 0x41, 0xCA,
       0x00, 0x93, 0xFD],
      [0x4E, 0x54, 0xF7, 0x0E, 0x5F, 0x5F, 0xC9, 0xF3, 0x84, 0xA6, 0x4F, 0xB2, 0x4E,
       0xA6, 0xDC, 0x4F],
      [0xEA, 0xD2, 0x73, 0x21, 0xB5, 0x8D, 0xBA, 0xD2, 0x31, 0x2B, 0xF5, 0x60, 0x7F,
       0x8D, 0x29, 0x2F],
      [0xAC, 0x77, 0x66, 0xF3, 0x19, 0xFA, 0xDC, 0x21, 0x28, 0xD1, 0x29, 0x41, 0x57,
       0x5C, 0x00, 0x6E],
      [0xD0, 0x14, 0xF9, 0xA8, 0xC9, 0xEE, 0x25, 0x89, 0xE1, 0x3F, 0x0C, 0xC8, 0xB6,
       0x63, 0x0C, 0xA6]]"
proof -
  have "KeyExpansion (replicate 176 0)
      [0x2B, 0x7E, 0x15, 0x16, 0x28, 0xAE, 0xD2, 0xA6, 0xAB, 0xF7, 0x15, 0x88, 0x09,
       0xCF, 0x4F, 0x3C]
    = expand_key [4..<44]
      [0x2B, 0x7E, 0x15, 0x16, 0x28, 0xAE, 0xD2, 0xA6, 0xAB, 0xF7, 0x15, 0x88, 0x09,
       0xCF, 0x4F, 0x3C]"
    by (rule KeyExpansion_expand) simp_all
  then show ?thesis by (simp add: schedule_eval)
qed

text \<open>The eleven round keys of the key of FIPS-197, Appendix C.1.\<close>

lemma round_keys_fips_c:
  "map (round_key (KeyExpansion (replicate 176 0)
      [0x00, 0x01, 0x02, 0x03, 0x04, 0x05, 0x06, 0x07, 0x08, 0x09, 0x0A, 0x0B, 0x0C,
       0x0D, 0x0E, 0x0F]))
     [0, 1, 2, 3, 4, 5, 6, 7, 8, 9, 10]
   = [[0x00, 0x01, 0x02, 0x03, 0x04, 0x05, 0x06, 0x07, 0x08, 0x09, 0x0A, 0x0B, 0x0C,
       0x0D, 0x0E, 0x0F],
      [0xD6, 0xAA, 0x74, 0xFD, 0xD2, 0xAF, 0x72, 0xFA, 0xDA, 0xA6, 0x78, 0xF1, 0xD6,
       0xAB, 0x76, 0xFE],
      [0xB6, 0x92, 0xCF, 0x0B, 0x64, 0x3D, 0xBD, 0xF1, 0xBE, 0x9B, 0xC5, 0x00, 0x68,
       0x30, 0xB3, 0xFE],
      [0xB6, 0xFF, 0x74, 0x4E, 0xD2, 0xC2, 0xC9, 0xBF, 0x6C, 0x59, 0x0C, 0xBF, 0x04,
       0x69, 0xBF, 0x41],
      [0x47, 0xF7, 0xF7, 0xBC, 0x95, 0x35, 0x3E, 0x03, 0xF9, 0x6C, 0x32, 0xBC, 0xFD,
       0x05, 0x8D, 0xFD],
      [0x3C, 0xAA, 0xA3, 0xE8, 0xA9, 0x9F, 0x9D, 0xEB, 0x50, 0xF3, 0xAF, 0x57, 0xAD,
       0xF6, 0x22, 0xAA],
      [0x5E, 0x39, 0x0F, 0x7D, 0xF7, 0xA6, 0x92, 0x96, 0xA7, 0x55, 0x3D, 0xC1, 0x0A,
       0xA3, 0x1F, 0x6B],
      [0x14, 0xF9, 0x70, 0x1A, 0xE3, 0x5F, 0xE2, 0x8C, 0x44, 0x0A, 0xDF, 0x4D, 0x4E,
       0xA9, 0xC0, 0x26],
      [0x47, 0x43, 0x87, 0x35, 0xA4, 0x1C, 0x65, 0xB9, 0xE0, 0x16, 0xBA, 0xF4, 0xAE,
       0xBF, 0x7A, 0xD2],
      [0x54, 0x99, 0x32, 0xD1, 0xF0, 0x85, 0x57, 0x68, 0x10, 0x93, 0xED, 0x9C, 0xBE,
       0x2C, 0x97, 0x4E],
      [0x13, 0x11, 0x1D, 0x7F, 0xE3, 0x94, 0x4A, 0x17, 0xF3, 0x07, 0xA7, 0x8B, 0x4D,
       0x2B, 0x30, 0xC5]]"
proof -
  have "KeyExpansion (replicate 176 0)
      [0x00, 0x01, 0x02, 0x03, 0x04, 0x05, 0x06, 0x07, 0x08, 0x09, 0x0A, 0x0B, 0x0C,
       0x0D, 0x0E, 0x0F]
    = expand_key [4..<44]
      [0x00, 0x01, 0x02, 0x03, 0x04, 0x05, 0x06, 0x07, 0x08, 0x09, 0x0A, 0x0B, 0x0C,
       0x0D, 0x0E, 0x0F]"
    by (rule KeyExpansion_expand) simp_all
  then show ?thesis by (simp add: schedule_eval)
qed

lemma blockEncrypt_spec_zero:
  "blockEncrypt_spec
      [0x00, 0x00, 0x00, 0x00, 0x00, 0x00, 0x00, 0x00, 0x00, 0x00, 0x00, 0x00, 0x00,
       0x00, 0x00, 0x00]
      [0x00, 0x00, 0x00, 0x00, 0x00, 0x00, 0x00, 0x00, 0x00, 0x00, 0x00, 0x00, 0x00,
       0x00, 0x00, 0x00]
   = [0x66, 0xE9, 0x4B, 0xD4, 0xEF, 0x8A, 0x2C, 0x3B, 0x88, 0x4C, 0xFA, 0x59, 0xCA,
       0x34, 0x2B, 0x2E]"
  using round_keys_zero unfolding blockEncrypt_spec_def rounds_1_to_9
  by (simp add: round_eval)

lemma blockEncrypt_zero:
  "blockEncrypt
      [0x00, 0x00, 0x00, 0x00, 0x00, 0x00, 0x00, 0x00, 0x00, 0x00, 0x00, 0x00, 0x00,
       0x00, 0x00, 0x00]
      [0x00, 0x00, 0x00, 0x00, 0x00, 0x00, 0x00, 0x00, 0x00, 0x00, 0x00, 0x00, 0x00,
       0x00, 0x00, 0x00]
   = [0x66, 0xE9, 0x4B, 0xD4, 0xEF, 0x8A, 0x2C, 0x3B, 0x88, 0x4C, 0xFA, 0x59, 0xCA,
       0x34, 0x2B, 0x2E]"
  using aes128e_eq(1) [of
      "[0x00, 0x00, 0x00, 0x00, 0x00, 0x00, 0x00, 0x00, 0x00, 0x00, 0x00, 0x00, 0x00,
       0x00, 0x00, 0x00]"
      "[0x00, 0x00, 0x00, 0x00, 0x00, 0x00, 0x00, 0x00, 0x00, 0x00, 0x00, 0x00, 0x00,
       0x00, 0x00, 0x00]"
      "replicate 16 0"]
  by (simp add: blockEncrypt_def blockEncrypt_spec_zero)

lemma blockEncrypt_spec_fips_b:
  "blockEncrypt_spec
      [0x32, 0x43, 0xF6, 0xA8, 0x88, 0x5A, 0x30, 0x8D, 0x31, 0x31, 0x98, 0xA2, 0xE0,
       0x37, 0x07, 0x34]
      [0x2B, 0x7E, 0x15, 0x16, 0x28, 0xAE, 0xD2, 0xA6, 0xAB, 0xF7, 0x15, 0x88, 0x09,
       0xCF, 0x4F, 0x3C]
   = [0x39, 0x25, 0x84, 0x1D, 0x02, 0xDC, 0x09, 0xFB, 0xDC, 0x11, 0x85, 0x97, 0x19,
       0x6A, 0x0B, 0x32]"
  using round_keys_fips_b unfolding blockEncrypt_spec_def rounds_1_to_9
  by (simp add: round_eval)

lemma blockEncrypt_fips_b:
  "blockEncrypt
      [0x32, 0x43, 0xF6, 0xA8, 0x88, 0x5A, 0x30, 0x8D, 0x31, 0x31, 0x98, 0xA2, 0xE0,
       0x37, 0x07, 0x34]
      [0x2B, 0x7E, 0x15, 0x16, 0x28, 0xAE, 0xD2, 0xA6, 0xAB, 0xF7, 0x15, 0x88, 0x09,
       0xCF, 0x4F, 0x3C]
   = [0x39, 0x25, 0x84, 0x1D, 0x02, 0xDC, 0x09, 0xFB, 0xDC, 0x11, 0x85, 0x97, 0x19,
       0x6A, 0x0B, 0x32]"
  using aes128e_eq(1) [of
      "[0x2B, 0x7E, 0x15, 0x16, 0x28, 0xAE, 0xD2, 0xA6, 0xAB, 0xF7, 0x15, 0x88, 0x09,
       0xCF, 0x4F, 0x3C]"
      "[0x32, 0x43, 0xF6, 0xA8, 0x88, 0x5A, 0x30, 0x8D, 0x31, 0x31, 0x98, 0xA2, 0xE0,
       0x37, 0x07, 0x34]"
      "replicate 16 0"]
  by (simp add: blockEncrypt_def blockEncrypt_spec_fips_b)

lemma blockEncrypt_spec_fips_c:
  "blockEncrypt_spec
      [0x00, 0x11, 0x22, 0x33, 0x44, 0x55, 0x66, 0x77, 0x88, 0x99, 0xAA, 0xBB, 0xCC,
       0xDD, 0xEE, 0xFF]
      [0x00, 0x01, 0x02, 0x03, 0x04, 0x05, 0x06, 0x07, 0x08, 0x09, 0x0A, 0x0B, 0x0C,
       0x0D, 0x0E, 0x0F]
   = [0x69, 0xC4, 0xE0, 0xD8, 0x6A, 0x7B, 0x04, 0x30, 0xD8, 0xCD, 0xB7, 0x80, 0x70,
       0xB4, 0xC5, 0x5A]"
  using round_keys_fips_c unfolding blockEncrypt_spec_def rounds_1_to_9
  by (simp add: round_eval)

lemma blockEncrypt_fips_c:
  "blockEncrypt
      [0x00, 0x11, 0x22, 0x33, 0x44, 0x55, 0x66, 0x77, 0x88, 0x99, 0xAA, 0xBB, 0xCC,
       0xDD, 0xEE, 0xFF]
      [0x00, 0x01, 0x02, 0x03, 0x04, 0x05, 0x06, 0x07, 0x08, 0x09, 0x0A, 0x0B, 0x0C,
       0x0D, 0x0E, 0x0F]
   = [0x69, 0xC4, 0xE0, 0xD8, 0x6A, 0x7B, 0x04, 0x30, 0xD8, 0xCD, 0xB7, 0x80, 0x70,
       0xB4, 0xC5, 0x5A]"
  using aes128e_eq(1) [of
      "[0x00, 0x01, 0x02, 0x03, 0x04, 0x05, 0x06, 0x07, 0x08, 0x09, 0x0A, 0x0B, 0x0C,
       0x0D, 0x0E, 0x0F]"
      "[0x00, 0x11, 0x22, 0x33, 0x44, 0x55, 0x66, 0x77, 0x88, 0x99, 0xAA, 0xBB, 0xCC,
       0xDD, 0xEE, 0xFF]"
      "replicate 16 0"]
  by (simp add: blockEncrypt_def blockEncrypt_spec_fips_c)

lemma blockEncrypt_spec_zero_2:
  "blockEncrypt_spec
      [0x66, 0xE9, 0x4B, 0xD4, 0xEF, 0x8A, 0x2C, 0x3B, 0x88, 0x4C, 0xFA, 0x59, 0xCA,
       0x34, 0x2B, 0x2E]
      [0x00, 0x00, 0x00, 0x00, 0x00, 0x00, 0x00, 0x00, 0x00, 0x00, 0x00, 0x00, 0x00,
       0x00, 0x00, 0x00]
   = [0xF7, 0x95, 0xBD, 0x4A, 0x52, 0xE2, 0x9E, 0xD7, 0x13, 0xD3, 0x13, 0xFA, 0x20,
       0xE9, 0x8D, 0xBC]"
  using round_keys_zero unfolding blockEncrypt_spec_def rounds_1_to_9
  by (simp add: round_eval)

lemma blockEncrypt_zero_2:
  "blockEncrypt
      [0x66, 0xE9, 0x4B, 0xD4, 0xEF, 0x8A, 0x2C, 0x3B, 0x88, 0x4C, 0xFA, 0x59, 0xCA,
       0x34, 0x2B, 0x2E]
      [0x00, 0x00, 0x00, 0x00, 0x00, 0x00, 0x00, 0x00, 0x00, 0x00, 0x00, 0x00, 0x00,
       0x00, 0x00, 0x00]
   = [0xF7, 0x95, 0xBD, 0x4A, 0x52, 0xE2, 0x9E, 0xD7, 0x13, 0xD3, 0x13, 0xFA, 0x20,
       0xE9, 0x8D, 0xBC]"
  using aes128e_eq(1) [of
      "[0x00, 0x00, 0x00, 0x00, 0x00, 0x00, 0x00, 0x00, 0x00, 0x00, 0x00, 0x00, 0x00,
       0x00, 0x00, 0x00]"
      "[0x66, 0xE9, 0x4B, 0xD4, 0xEF, 0x8A, 0x2C, 0x3B, 0x88, 0x4C, 0xFA, 0x59, 0xCA,
       0x34, 0x2B, 0x2E]"
      "replicate 16 0"]
  by (simp add: blockEncrypt_def blockEncrypt_spec_zero_2)

lemma blockEncrypt_spec_zero_3:
  "blockEncrypt_spec
      [0xF7, 0x95, 0xBD, 0x4A, 0x52, 0xE2, 0x9E, 0xD7, 0x13, 0xD3, 0x13, 0xFA, 0x20,
       0xE9, 0x8D, 0xBC]
      [0x00, 0x00, 0x00, 0x00, 0x00, 0x00, 0x00, 0x00, 0x00, 0x00, 0x00, 0x00, 0x00,
       0x00, 0x00, 0x00]
   = [0xA1, 0x0C, 0xF6, 0x6D, 0x0F, 0xDD, 0xF3, 0x40, 0x53, 0x70, 0xB4, 0xBF, 0x8D,
       0xF5, 0xBF, 0xB3]"
  using round_keys_zero unfolding blockEncrypt_spec_def rounds_1_to_9
  by (simp add: round_eval)

lemma blockEncrypt_zero_3:
  "blockEncrypt
      [0xF7, 0x95, 0xBD, 0x4A, 0x52, 0xE2, 0x9E, 0xD7, 0x13, 0xD3, 0x13, 0xFA, 0x20,
       0xE9, 0x8D, 0xBC]
      [0x00, 0x00, 0x00, 0x00, 0x00, 0x00, 0x00, 0x00, 0x00, 0x00, 0x00, 0x00, 0x00,
       0x00, 0x00, 0x00]
   = [0xA1, 0x0C, 0xF6, 0x6D, 0x0F, 0xDD, 0xF3, 0x40, 0x53, 0x70, 0xB4, 0xBF, 0x8D,
       0xF5, 0xBF, 0xB3]"
  using aes128e_eq(1) [of
      "[0x00, 0x00, 0x00, 0x00, 0x00, 0x00, 0x00, 0x00, 0x00, 0x00, 0x00, 0x00, 0x00,
       0x00, 0x00, 0x00]"
      "[0xF7, 0x95, 0xBD, 0x4A, 0x52, 0xE2, 0x9E, 0xD7, 0x13, 0xD3, 0x13, 0xFA, 0x20,
       0xE9, 0x8D, 0xBC]"
      "replicate 16 0"]
  by (simp add: blockEncrypt_def blockEncrypt_spec_zero_3)

section \<open>The OFB driver: what the loops compute\<close>

text \<open>
  With a 16-byte key and 16-byte \<open>feedback\<close> and \<open>block_out\<close>, each call of \<open>aes128e\<close> in
  the driver is \<open>blockEncrypt\<close> of the chaining register. The index \<open>base + j\<close> does not
  wrap as long as it stays within the length, a 32-bit number. The loop over the full
  blocks is followed by induction on the number of blocks still to do.
\<close>

lemma aes128e_blockEncrypt:
  assumes "length key = 16" "16 \<le> length input" "length out = 16"
  shows "aes128e out input key = blockEncrypt input key"
  using aes128e_eq(1) [OF assms(1,2)] assms(3) by (simp add: blockEncrypt_def)

lemma length_blockEncrypt:
  assumes "length key = 16" "16 \<le> length input"
  shows "length (blockEncrypt input key) = 16"
  using aes128e_eq(1) [OF assms, of "replicate 16 0"] aes128e_eq(2) [OF assms]
  by (simp add: blockEncrypt_def)

lemma length_keystream:
  assumes "length key = 16" "16 \<le> length iv"
  shows "length (keystream iv key n) = 16"
  using assms by (induction n) (simp_all add: length_blockEncrypt)

lemma keystream_shift:
  "keystream (blockEncrypt iv key) key n = keystream iv key (Suc n)"
  by (induction n) simp_all

lemma unat_index:
  fixes base :: "32 word"
  assumes "unat base + j < 2 ^ 32"
  shows "unat (base + word_of_nat j) = unat base + j"
proof -
  have "unat (base + word_of_nat j) = (unat base + j mod 2 ^ 32) mod 2 ^ 32"
    by (simp add: unat_word_ariths unat_of_nat)
  then show ?thesis using assms by simp
qed

lemma length_OFB_xor: "length (OFB_xor base n plaintext blk ciphertext) = length ciphertext"
proof -
  have "length (fold (\<lambda>j c. c[f j := g j]) js c) = length c" for f :: "nat \<Rightarrow> nat" and g :: "nat \<Rightarrow>
      byte" and js c
    by (induction js arbitrary: c) simp_all
  then show ?thesis by (simp add: OFB_xor_def)
qed

lemma OFB_xor_nth:
  assumes "unat base + n \<le> 2 ^ 32" "k < length ciphertext"
  shows "OFB_xor base n plaintext blk ciphertext ! k =
           (if unat base \<le> k \<and> k < unat base + n
            then plaintext ! k XOR blk ! (k - unat base) else ciphertext ! k)"
  using assms(1)
proof (induction n)
  case 0
  show ?case by (auto simp add: OFB_xor_def)
next
  case (Suc n)
  have IH: "OFB_xor base n plaintext blk ciphertext ! k =
           (if unat base \<le> k \<and> k < unat base + n
            then plaintext ! k XOR blk ! (k - unat base) else ciphertext ! k)"
    using Suc by simp
  have idx: "unat (base + word_of_nat n) = unat base + n"
    using Suc.prems by (intro unat_index) simp
  have step: "OFB_xor base (Suc n) plaintext blk ciphertext
        = (OFB_xor base n plaintext blk ciphertext)
            [unat base + n := plaintext ! (unat base + n) XOR blk ! n]"
    by (simp add: OFB_xor_def idx)
  show ?case
  proof (cases "k = unat base + n")
    case True
    then show ?thesis using assms(2) by (simp add: step length_OFB_xor)
  next
    case False
    then show ?thesis by (auto simp add: step IH)
  qed
qed

lemma block_index:
  fixes k u :: nat
  assumes "16 * u \<le> k" "k < 16 * u + 16"
  shows "k div 16 = u" and "k mod 16 = k - 16 * u"
proof -
  show d: "k div 16 = u" using assms by (intro div_nat_eqI) simp_all
  show "k mod 16 = k - 16 * u"
    using d minus_mult_div_eq_mod [of k 16] by simp
qed

lemma block_index_ge:
  fixes k u :: nat
  assumes "16 * u \<le> k"
  shows "u \<le> k div 16"
proof -
  have "16 * u div 16 \<le> k div 16" using assms by (rule div_le_mono)
  then show ?thesis by simp
qed

lemma OFB_blocks_run:
  assumes key: "length key = 16"
    and bound: "16 * unat full_blocks < 2 ^ 32"
    and m: "m = unat full_blocks - unat i"
    and le: "i \<le> full_blocks"
    and fb: "length (feedback s) = 16"
    and bo: "length (block_out s) = 16"
  shows "OFB_blocks_post plaintext key full_blocks i s (OFB_blocks plaintext key full_blocks i s)"
  using m le fb bo
proof (induction m arbitrary: i s)
  case 0
  then have "unat i = unat full_blocks" by (simp add: word_le_nat_alt)
  then have e: "i = full_blocks" by (simp add: word_unat_eq_iff)
  then have "OFB_blocks plaintext key full_blocks i s = s"
    by (subst OFB_blocks.simps) simp
  then show ?case by (auto simp add: OFB_blocks_post_def e)
next
  case (Suc m)
  define c where "c = ciphertext_buf s"
  define blk where "blk = blockEncrypt (feedback s) key"
  define c' where "c' = OFB_xor (i * 16) 16 plaintext blk c"
  define s' where "s' = \<lparr>ciphertext_buf = c', block_out = blk, feedback = blk,
                          aes_calls = aes_calls s + 1\<rparr>"
  have ui: "unat i < unat full_blocks" using Suc.prems(1) by simp
  then have lt: "i < full_blocks" by (simp add: word_less_nat_alt)
  have ne: "i \<noteq> full_blocks" using lt by simp
  have ui1: "unat (i + 1) = unat i + 1" using lt by (rule unat_succ_less)
  have le1: "i + 1 \<le> full_blocks" using ui ui1 by (simp add: word_le_nat_alt)
  have m1: "m = unat full_blocks - unat (i + 1)" using Suc.prems(1) ui1 by simp
  have a: "aes128e (block_out s) (feedback s) key = blk"
    unfolding blk_def using key Suc.prems(3,4) by (intro aes128e_blockEncrypt) simp_all
  have lblk: "length blk = 16"
    unfolding blk_def using key Suc.prems(3) by (intro length_blockEncrypt) simp_all
  have mc: "memcpy (feedback s) blk 16 = blk"
    using lblk Suc.prems(3) by (simp add: memcpy_def)
  have unfold: "OFB_blocks plaintext key full_blocks i s = OFB_blocks plaintext key full_blocks (i
      + 1) s'"
    by (subst OFB_blocks.simps) (simp add: lt a mc Let_def s'_def c'_def c_def)
  have IH: "OFB_blocks_post plaintext key full_blocks (i + 1) s'
              (OFB_blocks plaintext key full_blocks (i + 1) s')"
    using m1 le1 lblk by (intro Suc.IH) (simp_all add: s'_def)
  define r where "r = OFB_blocks plaintext key full_blocks (i + 1) s'"
  have base: "unat (i * 16) = 16 * unat i"
  proof -
    have "unat (i * 16) = (unat i * 16) mod 2 ^ 32" by (simp add: unat_word_ariths)
    then show ?thesis using ui bound by simp
  qed
  have fin: "unat (i * 16) + 16 \<le> 2 ^ 32" using base ui bound by simp
  have lc': "length c' = length c" by (simp add: c'_def length_OFB_xor)
  have c'k: "c' ! k = (if 16 * unat i \<le> k \<and> k < 16 * unat i + 16
                       then plaintext ! k XOR blk ! (k - 16 * unat i) else c ! k)"
    if "k < length c" for k
    unfolding c'_def using OFB_xor_nth [OF fin that, of plaintext blk] by (simp add: base)
  have k0: "keystream (feedback s) key 0 = blk" by (simp add: blk_def)
  have sh: "keystream blk key n = keystream (feedback s) key (Suc n)" for n
    unfolding blk_def by (rule keystream_shift)
  have sel: "ciphertext_buf s' = c'" "feedback s' = blk" "block_out s' = blk"
    "aes_calls s' = aes_calls s + 1"
    by (simp_all add: s'_def)
  have IH': "OFB_blocks_post plaintext key full_blocks (i + 1) s' r"
    using IH by (simp only: r_def)
  from IH' have
    r1: "length (ciphertext_buf r) = length c'" and
    r2: "\<And>k. k < length c' \<Longrightarrow> ciphertext_buf r ! k =
              (if 16 * unat (i + 1) \<le> k \<and> k < 16 * unat full_blocks
               then plaintext ! k XOR keystream blk key (k div 16 - unat (i + 1)) ! (k mod 16)
               else c' ! k)" and
    r3: "feedback r = (if i + 1 = full_blocks then blk
                       else keystream blk key (unat full_blocks - unat (i + 1) - 1))" and
    r4: "block_out r = (if i + 1 = full_blocks then blk
                       else keystream blk key (unat full_blocks - unat (i + 1) - 1))" and
    r5: "aes_calls r = aes_calls s + 1 + (unat full_blocks - unat (i + 1))"
    by (simp_all add: OFB_blocks_post_def sel)
  have g2: "ciphertext_buf r ! k =
              (if 16 * unat i \<le> k \<and> k < 16 * unat full_blocks
               then plaintext ! k XOR keystream (feedback s) key (k div 16 - unat i) ! (k mod 16)
               else c ! k)" if k: "k < length c" for k
  proof -
    consider "k < 16 * unat i" | "16 * unat i \<le> k" "k < 16 * unat i + 16"
      | "16 * unat i + 16 \<le> k" "k < 16 * unat full_blocks" | "16 * unat full_blocks \<le> k"
      using ui by linarith
    then show ?thesis
    proof cases
      case 1
      then show ?thesis using r2 [of k] c'k [OF k] k lc' ui1 by simp
    next
      case 2
      have "k div 16 = unat i" "k mod 16 = k - 16 * unat i"
        using 2 by (rule block_index)+
      moreover have "k < 16 * unat full_blocks" using 2 ui by simp
      ultimately show ?thesis
        using 2 r2 [of k] c'k [OF k] k lc' ui1 k0 by simp
    next
      case 3
      have "unat i + 1 \<le> k div 16" using 3(1) by (intro block_index_ge) simp
      then have "Suc (k div 16 - unat (i + 1)) = k div 16 - unat i" using ui1 by simp
      then have "keystream blk key (k div 16 - unat (i + 1)) = keystream (feedback s) key (k div
          16 - unat i)"
        using sh [of "k div 16 - unat (i + 1)"] by simp
      then show ?thesis using 3 r2 [of k] k lc' ui1 by simp
    next
      case 4
      then show ?thesis using r2 [of k] c'k [OF k] k lc' ui1 ui by simp
    qed
  qed
  have g3: "(if i + 1 = full_blocks then blk
             else keystream blk key (unat full_blocks - unat (i + 1) - 1))
            = keystream (feedback s) key (unat full_blocks - unat i - 1)"
  proof (cases "i + 1 = full_blocks")
    case True
    then have "unat full_blocks - unat i - 1 = 0" using ui1 by simp
    then show ?thesis using True k0 by simp
  next
    case False
    then have "unat (i + 1) \<noteq> unat full_blocks" by (simp add: word_unat_eq_iff)
    then have "Suc (unat full_blocks - unat (i + 1) - 1) = unat full_blocks - unat i - 1"
      using ui ui1 by simp
    then show ?thesis using False sh [of "unat full_blocks - unat (i + 1) - 1"] by simp
  qed
  have g5: "aes_calls r = aes_calls s + (unat full_blocks - unat i)" using r5 ui ui1 by simp
  show ?case
    unfolding unfold r_def [symmetric] OFB_blocks_post_def
    using r1 lc' g2 r3 r4 g3 g5 ne by (simp add: c_def)
qed

lemma OFBaes128e_locals_post:
  assumes key: "length key = 16" and iv: "length iv = 16"
  shows "OFB_post ciphertext plaintext len iv key (OFBaes128e_locals ciphertext plaintext len iv
      key)"
proof -
  define L where "L = unat len"
  define n where "n = L div 16"
  define rem where "rem = L mod 16"
  define s0 where "s0 = \<lparr>ciphertext_buf = ciphertext, block_out = replicate 16 0,
                          feedback = iv, aes_calls = 0\<rparr>"
  define s1 where "s1 = OFB_blocks plaintext key (len div 16) 0 s0"
  have Lb: "L < 2 ^ 32" unfolding L_def using unsigned_less [of len, where 'a=nat] by simp
  have ufb: "unat (len div 16) = n" by (simp add: n_def L_def unat_div)
  have urem: "unat (len mod 16) = rem" by (simp add: rem_def L_def unat_mod)
  have Leq: "L = 16 * n + rem" by (simp add: n_def rem_def)
  have remlt: "rem < 16" by (simp add: rem_def)
  have mc: "memcpy (replicate 16 0) iv 16 = iv" using iv by (simp add: memcpy_def)
  have bound: "16 * unat (len div 16) < 2 ^ 32" using Lb Leq ufb by simp
  have post1: "OFB_blocks_post plaintext key (len div 16) 0 s0 s1"
    unfolding s1_def using key bound
    by (intro OFB_blocks_run [where m = "unat (len div 16)"]) (simp_all add: s0_def iv)
  have z: "((0::32 word) = len div 16) = (n = 0)"
    using ufb by (metis unat_0 word_unat_eq_iff)
  from post1 have
    p1: "length (ciphertext_buf s1) = length ciphertext" and
    p2: "\<And>k. k < length ciphertext \<Longrightarrow> ciphertext_buf s1 ! k =
              (if k < 16 * n then plaintext ! k XOR keystream iv key (k div 16) ! (k mod 16)
               else ciphertext ! k)" and
    p3: "feedback s1 = (if n = 0 then iv else keystream iv key (n - 1))" and
    p4: "block_out s1 = (if n = 0 then replicate 16 0 else keystream iv key (n - 1))" and
    p5: "aes_calls s1 = n"
    by (simp_all add: OFB_blocks_post_def s0_def ufb z)
  show ?thesis
  proof (cases "rem = 0")
    case True
    then have "\<not> (len mod 16 > 0)" using urem by (simp add: word_less_nat_alt)
    then have e: "OFBaes128e_locals ciphertext plaintext len iv key = s1"
      by (simp add: OFBaes128e_locals_def Let_def mc s0_def [symmetric] s1_def [symmetric])
    have L16: "L = 16 * n" using Leq True by simp
    have "(L - 1) div 16 = n - 1" if "n \<noteq> 0"
    proof -
      have "16 * (n - 1) \<le> L - 1" "L - 1 < 16 * (n - 1) + 16" using that L16 by simp_all
      then show ?thesis by (rule block_index(1))
    qed
    moreover have "(L + 15) div 16 = n"
      using L16 by (intro div_nat_eqI) simp_all
    ultimately show ?thesis
      unfolding e OFB_post_def L_def [symmetric] n_def [symmetric]
      using p1 p2 p3 p4 p5 L16 by (auto simp add: keystream_byte_def)
  next
    case False
    then have g: "len mod 16 > 0" using urem by (simp add: word_less_nat_alt)
    define blk where "blk = keystream iv key n"
    define c2 where "c2 = OFB_xor (len div 16 * 16) rem plaintext blk (ciphertext_buf s1)"
    have lf: "length (feedback s1) = 16" "length (block_out s1) = 16"
      using p3 p4 key iv by (simp_all add: length_keystream)
    have "blockEncrypt (feedback s1) key = blk"
    proof (cases "n = 0")
      case True
      then show ?thesis by (simp add: p3 blk_def)
    next
      case False
      then obtain n' where "n = Suc n'" by (cases n) simp_all
      then show ?thesis by (simp add: p3 blk_def)
    qed
    then have a: "aes128e (block_out s1) (feedback s1) key = blk"
      using aes128e_blockEncrypt [OF key, of "feedback s1" "block_out s1"] lf by simp
    have e: "OFBaes128e_locals ciphertext plaintext len iv key
             = s1\<lparr>ciphertext_buf := c2, block_out := blk, aes_calls := aes_calls s1 + 1\<rparr>"
      using g
      by (simp add: OFBaes128e_locals_def Let_def mc s0_def [symmetric] s1_def [symmetric]
            a urem c2_def)
    have base: "unat (len div 16 * 16) = 16 * n"
    proof -
      have "unat (len div 16 * 16) = (unat (len div 16) * 16) mod 2 ^ 32"
        by (simp add: unat_word_ariths)
      then show ?thesis using Lb Leq ufb by simp
    qed
    have fin: "unat (len div 16 * 16) + rem \<le> 2 ^ 32" using base Lb Leq by simp
    have c2k: "c2 ! k = (if 16 * n \<le> k \<and> k < 16 * n + rem
                       then plaintext ! k XOR blk ! (k - 16 * n) else ciphertext_buf s1 ! k)"
      if "k < length ciphertext" for k
      unfolding c2_def using OFB_xor_nth [OF fin, of k "ciphertext_buf s1" plaintext blk] that p1
      by (simp add: base)
    have g2: "c2 ! k = (if k < L then plaintext ! k XOR keystream_byte iv key k else ciphertext !
        k)"
      if k: "k < length ciphertext" for k
    proof -
      consider "k < 16 * n" | "16 * n \<le> k" "k < 16 * n + rem" | "L \<le> k"
        using Leq by linarith
      then show ?thesis
      proof cases
        case 1
        then show ?thesis using c2k [OF k] p2 [OF k] Leq by (simp add: keystream_byte_def)
      next
        case 2
        then have "k < 16 * n + 16" using remlt by simp
        then have "k div 16 = n" "k mod 16 = k - 16 * n" using 2(1) by (simp_all add: block_index)
        then show ?thesis using 2 c2k [OF k] Leq by (simp add: keystream_byte_def blk_def)
      next
        case 3
        then show ?thesis using c2k [OF k] p2 [OF k] Leq by simp
      qed
    qed
    have "(L - 1) div 16 = n"
    proof -
      have "16 * n \<le> L - 1" "L - 1 < 16 * n + 16" using Leq False remlt by simp_all
      then show ?thesis by (rule block_index(1))
    qed
    moreover have "(L + 15) div 16 = n + 1"
      using Leq False remlt by (intro div_nat_eqI) simp_all
    moreover have "L \<noteq> 0" using Leq False by simp
    ultimately show ?thesis
      unfolding e OFB_post_def L_def [symmetric] n_def [symmetric]
      using p1 g2 p3 p5 by (simp add: c2_def length_OFB_xor blk_def)
  qed
qed

lemma OFBaes128e_closed_form:
  assumes "length key = 16" "length iv = 16" "length ciphertext = unat len"
  shows "OFBaes128e ciphertext plaintext len iv key
         = map (\<lambda>k. plaintext ! k XOR keystream_byte iv key k) [0..<unat len]"
proof -
  have "OFB_post ciphertext plaintext len iv key (OFBaes128e_locals ciphertext plaintext len iv
      key)"
    using assms(1,2) by (rule OFBaes128e_locals_post)
  then show ?thesis
    using assms(3) by (intro nth_equalityI) (simp_all add: OFB_post_def OFBaes128e_def)
qed

section \<open>Known answers\<close>

lemma zeros16: "replicate 16 (0::byte) = [0x00, 0x00, 0x00, 0x00, 0x00, 0x00, 0x00, 0x00, 0x00,
    0x00, 0x00, 0x00, 0x00, 0x00, 0x00, 0x00]"
  by (simp add: numeral_eq_Suc)

text \<open>
  C2. \<open>aes128e\<close> reproduces the published ciphertexts of FIPS-197 (the cipher example of
  Appendix B and the AES-128 example vector of Appendix C.1) byte for byte. For the
  all-zero key and the all-zero block its output is 66 E9 4B D4 EF 8A 2C 3B 88 4C FA 59
  CA 34 2B 2E, and with the all-zero IV the OFB ciphertext of sixteen zero bytes is the
  same block.
\<close>

theorem known_answer_vectors:
  "aes128e (replicate 16 0)
      [0x32, 0x43, 0xF6, 0xA8, 0x88, 0x5A, 0x30, 0x8D, 0x31, 0x31, 0x98, 0xA2, 0xE0, 0x37, 0x07,
          0x34]
      [0x2B, 0x7E, 0x15, 0x16, 0x28, 0xAE, 0xD2, 0xA6, 0xAB, 0xF7, 0x15, 0x88, 0x09, 0xCF, 0x4F,
          0x3C]
    = [0x39, 0x25, 0x84, 0x1D, 0x02, 0xDC, 0x09, 0xFB, 0xDC, 0x11, 0x85, 0x97, 0x19, 0x6A, 0x0B,
        0x32]
   \<and> aes128e (replicate 16 0)
      [0x00, 0x11, 0x22, 0x33, 0x44, 0x55, 0x66, 0x77, 0x88, 0x99, 0xAA, 0xBB, 0xCC, 0xDD, 0xEE,
          0xFF]
      [0x00, 0x01, 0x02, 0x03, 0x04, 0x05, 0x06, 0x07, 0x08, 0x09, 0x0A, 0x0B, 0x0C, 0x0D, 0x0E,
          0x0F]
    = [0x69, 0xC4, 0xE0, 0xD8, 0x6A, 0x7B, 0x04, 0x30, 0xD8, 0xCD, 0xB7, 0x80, 0x70, 0xB4, 0xC5,
        0x5A]
   \<and> aes128e (replicate 16 0) (replicate 16 0) (replicate 16 0)
    = [0x66, 0xE9, 0x4B, 0xD4, 0xEF, 0x8A, 0x2C, 0x3B, 0x88, 0x4C, 0xFA, 0x59, 0xCA, 0x34, 0x2B,
        0x2E]
   \<and> OFBaes128e (replicate 16 0) (replicate 16 0) 16 (replicate 16 0) (replicate 16 0)
    = [0x66, 0xE9, 0x4B, 0xD4, 0xEF, 0x8A, 0x2C, 0x3B, 0x88, 0x4C, 0xFA, 0x59, 0xCA, 0x34, 0x2B,
        0x2E]"
proof -
  have ofb: "OFBaes128e (replicate 16 0) (replicate 16 0) 16 (replicate 16 0) (replicate 16 0)
         = map (\<lambda>k. replicate 16 0 ! k XOR keystream_byte (replicate 16 0) (replicate 16 0) k)
             [0..<unat (16 :: 32 word)]"
    by (rule OFBaes128e_closed_form) simp_all
  have ks: "blockEncrypt (replicate 16 0) (replicate 16 0) = [0x66, 0xE9, 0x4B, 0xD4, 0xEF, 0x8A,
      0x2C, 0x3B, 0x88, 0x4C, 0xFA, 0x59, 0xCA, 0x34, 0x2B, 0x2E]"
    by (simp add: zeros16 blockEncrypt_zero)
  have "OFBaes128e (replicate 16 0) (replicate 16 0) 16 (replicate 16 0) (replicate 16 0)
    = [0x66, 0xE9, 0x4B, 0xD4, 0xEF, 0x8A, 0x2C, 0x3B, 0x88, 0x4C, 0xFA, 0x59, 0xCA, 0x34, 0x2B,
        0x2E]"
    unfolding ofb by (simp add: upt_0_16 keystream_byte_def ks)
  then show ?thesis
    using blockEncrypt_fips_b blockEncrypt_fips_c blockEncrypt_zero
    by (simp add: blockEncrypt_def zeros16)
qed

lemma keystream_zero:
  "keystream (replicate 16 0) (replicate 16 0) 0 = [0x66, 0xE9, 0x4B, 0xD4, 0xEF, 0x8A, 0x2C,
      0x3B, 0x88, 0x4C, 0xFA, 0x59, 0xCA, 0x34, 0x2B, 0x2E]"
  "keystream (replicate 16 0) (replicate 16 0) 1 = [0xF7, 0x95, 0xBD, 0x4A, 0x52, 0xE2, 0x9E,
      0xD7, 0x13, 0xD3, 0x13, 0xFA, 0x20, 0xE9, 0x8D, 0xBC]"
  "keystream (replicate 16 0) (replicate 16 0) 2 = [0xA1, 0x0C, 0xF6, 0x6D, 0x0F, 0xDD, 0xF3,
      0x40, 0x53, 0x70, 0xB4, 0xBF, 0x8D, 0xF5, 0xBF, 0xB3]"
  by (simp_all add: zeros16 blockEncrypt_zero blockEncrypt_zero_2 blockEncrypt_zero_3
      numeral_2_eq_2)

section \<open>The OFB driver: properties\<close>

text \<open>
  C1. For every 16-byte key, every 16-byte IV, every length \<open>len\<close> and every plaintext of
  that length, running \<open>OFBaes128e\<close> on the plaintext and then running it again, with
  the same key and IV, on the ciphertext it produced gives back the plaintext. The output
  buffers of the two calls are any buffers of \<open>len\<close> bytes.
\<close>

theorem OFB_self_inverse:
  assumes "length key = 16" and "length iv = 16"
    and "length plaintext = unat len" and "length ciphertext = unat len"
    and "length decrypted = unat len"
  shows "OFBaes128e decrypted (OFBaes128e ciphertext plaintext len iv key) len iv key = plaintext"
proof -
  have 1: "OFBaes128e ciphertext plaintext len iv key
           = map (\<lambda>k. plaintext ! k XOR keystream_byte iv key k) [0..<unat len]"
    using assms(1,2,4) by (rule OFBaes128e_closed_form)
  have 2: "OFBaes128e decrypted (OFBaes128e ciphertext plaintext len iv key) len iv key
           = map (\<lambda>k. OFBaes128e ciphertext plaintext len iv key ! k XOR keystream_byte iv key k)
               [0..<unat len]"
    using assms(1,2,5) by (rule OFBaes128e_closed_form)
  show ?thesis
    unfolding 2 using assms(3) by (intro nth_equalityI) (simp_all add: 1 xor.assoc)
qed

theorem OFB_self_inverse_witness:
  "length (replicate 16 (0::byte)) = 16
   \<and> length [0x41, 0x42, 0x43, 0x44, 0x45, 0x46, 0x47, 0x48, 0x49, 0x4A, 0x4B, 0x4C, 0x4D, 0x4E,
       0x4F, 0x50, 0x51] = unat (17 :: 32 word)
   \<and> length (replicate 17 (0::byte)) = unat (17 :: 32 word)
   \<and> OFBaes128e (replicate 17 0)
        (OFBaes128e (replicate 17 0) [0x41, 0x42, 0x43, 0x44, 0x45, 0x46, 0x47, 0x48, 0x49, 0x4A,
            0x4B, 0x4C, 0x4D, 0x4E, 0x4F, 0x50, 0x51] 17 (replicate 16 0) (replicate 16 0))
        17 (replicate 16 0) (replicate 16 0)
       = [0x41, 0x42, 0x43, 0x44, 0x45, 0x46, 0x47, 0x48, 0x49, 0x4A, 0x4B, 0x4C, 0x4D, 0x4E,
           0x4F, 0x50, 0x51]"
  using OFB_self_inverse [of "replicate 16 0" "replicate 16 0" "[0x41, 0x42, 0x43, 0x44, 0x45,
      0x46, 0x47, 0x48, 0x49, 0x4A, 0x4B, 0x4C, 0x4D, 0x4E, 0x4F, 0x50, 0x51]" 17 "replicate 17 0"
      "replicate 17 0"]
  by simp

lemma length_OFB_blocks:
  "length (ciphertext_buf (OFB_blocks plaintext key full_blocks i s)) = length (ciphertext_buf s)"
proof (induction plaintext key full_blocks i s rule: OFB_blocks.induct)
  case (1 plaintext key full_blocks i s)
  show ?case
  proof (cases "i < full_blocks")
    case True
    then show ?thesis
      using 1 [OF True refl refl refl]
      by (subst OFB_blocks.simps) (simp add: Let_def length_OFB_xor)
  next
    case False
    then show ?thesis by (subst OFB_blocks.simps) simp
  qed
qed

lemma length_OFBaes128e:
  "length (OFBaes128e ciphertext plaintext len iv key) = length ciphertext"
  by (simp add: OFBaes128e_def OFBaes128e_locals_def Let_def length_OFB_blocks length_OFB_xor)

lemma OFBaes128e_locals_zero:
  "OFBaes128e_locals ciphertext plaintext 0 iv key
   = \<lparr>ciphertext_buf = ciphertext, block_out = replicate 16 0,
      feedback = memcpy (replicate 16 0) iv 16, aes_calls = 0\<rparr>"
  by (simp add: OFBaes128e_locals_def Let_def OFB_blocks.simps [of _ _ 0 0])

text \<open>
  C7. For every length \<open>len\<close>, 16-byte key and IV and plaintext of \<open>len\<close> bytes, the call
  produces exactly \<open>len\<close> bytes of output: in an output buffer of at least \<open>len\<close> bytes
  it writes the first \<open>len\<close> bytes, byte \<open>k\<close> becoming plaintext byte \<open>k\<close> XOR keystream
  byte \<open>k\<close>, and leaves every byte from \<open>len\<close> on as it was; the buffer keeps its length,
  so the output of a call on a buffer of \<open>len\<close> bytes has length \<open>len\<close>. The call
  makes \<open>len / 16\<close> rounded up block encryptions. When \<open>len\<close> is 0 the output is empty,
  the buffer is unchanged and \<open>aes128e\<close> is not called at all.
\<close>

theorem OFB_length:
  assumes "length key = 16" and "length iv = 16"
    and "length plaintext = unat len" and "unat len \<le> length ciphertext"
  shows "length (OFBaes128e ciphertext plaintext len iv key) = length ciphertext
       \<and> length (take (unat len) (OFBaes128e ciphertext plaintext len iv key)) = unat len
       \<and> take (unat len) (OFBaes128e ciphertext plaintext len iv key)
           = map (\<lambda>k. plaintext ! k XOR keystream_byte iv key k) [0..<unat len]
       \<and> drop (unat len) (OFBaes128e ciphertext plaintext len iv key)
           = drop (unat len) ciphertext
       \<and> aes_calls (OFBaes128e_locals ciphertext plaintext len iv key) = (unat len + 15) div 16
       \<and> (length ciphertext = unat len \<longrightarrow>
             length (OFBaes128e ciphertext plaintext len iv key) = unat len)
       \<and> (len = 0 \<longrightarrow>
             take (unat len) (OFBaes128e ciphertext plaintext len iv key) = []
             \<and> OFBaes128e ciphertext plaintext len iv key = ciphertext
             \<and> aes_calls (OFBaes128e_locals ciphertext plaintext len iv key) = 0)"
proof -
  define out where "out = OFBaes128e ciphertext plaintext len iv key"
  have post: "OFB_post ciphertext plaintext len iv key
                (OFBaes128e_locals ciphertext plaintext len iv key)"
    using assms(1,2) by (rule OFBaes128e_locals_post)
  have l: "length out = length ciphertext"
    using post by (simp add: OFB_post_def out_def OFBaes128e_def)
  have nth: "out ! k = (if k < unat len then plaintext ! k XOR keystream_byte iv key k
                        else ciphertext ! k)" if "k < length ciphertext" for k
    using post that by (simp add: OFB_post_def out_def OFBaes128e_def)
  have calls: "aes_calls (OFBaes128e_locals ciphertext plaintext len iv key)
               = (unat len + 15) div 16"
    using post by (simp add: OFB_post_def)
  have lt: "length (take (unat len) out) = unat len" using l assms(4) by simp
  have t: "take (unat len) out = map (\<lambda>k. plaintext ! k XOR keystream_byte iv key k) [0..<unat
      len]"
    using l assms(4) by (intro nth_equalityI) (simp_all add: nth)
  have d: "drop (unat len) out = drop (unat len) ciphertext"
    using l by (intro nth_equalityI) (simp_all add: nth)
  have z: "out = ciphertext" if "len = 0"
    using d that by simp
  have zc: "aes_calls (OFBaes128e_locals ciphertext plaintext len iv key) = 0" if "len = 0"
    using that by (simp add: OFBaes128e_locals_zero)
  show ?thesis
    unfolding out_def [symmetric] using l lt t d calls z zc by simp
qed

theorem OFB_length_witness:
  "length (replicate 16 (0::byte)) = 16
   \<and> length [0::byte] = unat (1 :: 32 word)
   \<and> unat (1 :: 32 word) \<le> length [0xAA, 0xBB, 0xCC :: byte]
   \<and> OFBaes128e [0xAA, 0xBB, 0xCC] [0] 1 (replicate 16 0) (replicate 16 0) = [0x66, 0xBB, 0xCC]
   \<and> aes_calls (OFBaes128e_locals [0xAA, 0xBB, 0xCC] [0] 1 (replicate 16 0) (replicate 16 0)) = 1
   \<and> length ([] :: byte list) = unat (0 :: 32 word)
   \<and> OFBaes128e [] [] 0 (replicate 16 0) (replicate 16 0) = []
   \<and> aes_calls (OFBaes128e_locals [] [] 0 (replicate 16 0) (replicate 16 0)) = 0"
proof -
  have h: "length (replicate 16 (0::byte)) = 16" "length [0::byte] = unat (1 :: 32 word)"
    "unat (1 :: 32 word) \<le> length [0xAA, 0xBB, 0xCC :: byte]"
    "length ([] :: byte list) = unat (0 :: 32 word)"
    "unat (0 :: 32 word) \<le> length ([] :: byte list)"
    by simp_all
  note one = OFB_length [OF h(1) h(1) h(2) h(3)]
  note none = OFB_length [OF h(1) h(1) h(4) h(5)]
  define out where "out = OFBaes128e [0xAA, 0xBB, 0xCC] [0] 1 (replicate 16 0) (replicate 16 0)"
  have kb: "keystream_byte (replicate 16 0) (replicate 16 0) 0 = 0x66"
    by (simp add: keystream_byte_def zeros16 blockEncrypt_zero)
  have t: "take 1 out = [0x66]"
    using one [THEN conjunct2, THEN conjunct2, THEN conjunct1] by (simp add: out_def kb)
  have d: "drop 1 out = [0xBB, 0xCC]"
    using one [THEN conjunct2, THEN conjunct2, THEN conjunct2, THEN conjunct1]
    by (simp add: out_def)
  have "out = take 1 out @ drop 1 out" by simp
  then have o: "out = [0x66, 0xBB, 0xCC]" by (simp only: t d) simp
  have c: "aes_calls (OFBaes128e_locals [0xAA, 0xBB, 0xCC] [0] 1 (replicate 16 0) (replicate 16
      0)) = 1"
    using one [THEN conjunct2, THEN conjunct2, THEN conjunct2, THEN conjunct2, THEN conjunct1]
    by simp
  have e: "OFBaes128e [] [] 0 (replicate 16 0) (replicate 16 0) = []"
    "aes_calls (OFBaes128e_locals [] [] 0 (replicate 16 0) (replicate 16 0)) = 0"
    using none by simp_all
  show ?thesis using h o c e by (simp add: out_def)
qed

lemma keystream_byte_block:
  assumes "k < 16"
  shows "keystream_byte iv key (16 * i + k) = keystream iv key i ! k"
proof -
  have "(16 * i + k) div 16 = i" "(16 * i + k) mod 16 = k" using assms by simp_all
  then show ?thesis by (simp add: keystream_byte_def)
qed

text \<open>
  C5. For every key, IV and plaintext of length \<open>len\<close> and every full block index
  \<open>i < len / 16\<close>, the \<open>i\<close>-th 16-byte block of the ciphertext is the \<open>i\<close>-th block of
  the plaintext XOR the \<open>i\<close>-th keystream block, where keystream block 0 is the
  encryption of the IV and each further keystream block is the encryption of the one
  before it. The chaining register \<open>feedback\<close> is overwritten with each keystream block:
  when the loop has run for the blocks 0 to \<open>i\<close> it holds keystream block \<open>i\<close>, and after
  the call it holds the last full keystream block.
\<close>

theorem OFB_full_blocks:
  assumes "length key = 16" and "length iv = 16"
    and "length plaintext = unat len" and "length ciphertext = unat len"
    and "i < unat len div 16"
  shows "take 16 (drop (16 * i) (OFBaes128e ciphertext plaintext len iv key))
           = xor_bytes (take 16 (drop (16 * i) plaintext)) (keystream iv key i)
         \<and> keystream iv key 0 = blockEncrypt iv key
         \<and> keystream iv key (Suc i) = blockEncrypt (keystream iv key i) key
         \<and> feedback (OFB_blocks plaintext key (word_of_nat (Suc i)) 0
               \<lparr>ciphertext_buf = ciphertext, block_out = replicate 16 0, feedback = iv,
                aes_calls = 0\<rparr>)
             = keystream iv key i
         \<and> feedback (OFBaes128e_locals ciphertext plaintext len iv key)
             = keystream iv key (unat len div 16 - 1)"
proof -
  define s0 where "s0 = \<lparr>ciphertext_buf = ciphertext, block_out = replicate 16 0,
                          feedback = iv, aes_calls = 0\<rparr>"
  have lenb: "unat len < 2 ^ 32" using unsigned_less [of len, where 'a=nat] by simp
  have si: "16 * Suc i \<le> unat len" using assms(5) by simp
  have un: "unat (word_of_nat (Suc i) :: 32 word) = Suc i"
    using si lenb by (simp add: unat_of_nat del: of_nat_Suc)
  have "OFB_blocks_post plaintext key (word_of_nat (Suc i)) 0 s0
          (OFB_blocks plaintext key (word_of_nat (Suc i)) 0 s0)"
    using assms(1) si lenb
    by (intro OFB_blocks_run [where m = "Suc i"]) (simp_all add: un s0_def assms(2) del:
        of_nat_Suc)
  moreover have "(0 :: 32 word) \<noteq> word_of_nat (Suc i)"
    using un by (metis nat.distinct(1) unat_0)
  ultimately have after: "feedback (OFB_blocks plaintext key (word_of_nat (Suc i)) 0 s0)
                          = keystream iv key i"
    by (simp add: OFB_blocks_post_def un s0_def del: of_nat_Suc)
  have cf: "OFBaes128e ciphertext plaintext len iv key
           = map (\<lambda>k. plaintext ! k XOR keystream_byte iv key k) [0..<unat len]"
    using assms(1,2,4) by (rule OFBaes128e_closed_form)
  have b: "16 * i + 16 \<le> unat len" using assms(5) by simp
  have lk: "length (keystream iv key i) = 16"
    using assms(1,2) by (intro length_keystream) simp_all
  have "take 16 (drop (16 * i) (OFBaes128e ciphertext plaintext len iv key))
           = xor_bytes (take 16 (drop (16 * i) plaintext)) (keystream iv key i)"
    unfolding cf using b assms(3) lk
    by (intro nth_equalityI) (simp_all add: xor_bytes_def keystream_byte_block)
  moreover have "feedback (OFBaes128e_locals ciphertext plaintext len iv key)
             = keystream iv key (unat len div 16 - 1)"
    using OFBaes128e_locals_post [OF assms(1,2), of ciphertext plaintext len] assms(5)
    by (simp add: OFB_post_def)
  ultimately show ?thesis using after by (simp add: s0_def del: of_nat_Suc)
qed

theorem OFB_full_blocks_witness:
  "length (replicate 16 (0::byte)) = 16
   \<and> length (replicate 33 (0::byte)) = unat (33 :: 32 word)
   \<and> (1::nat) < unat (33 :: 32 word) div 16
   \<and> take 16 (drop (16 * 1)
         (OFBaes128e (replicate 33 0) (replicate 33 0) 33 (replicate 16 0) (replicate 16 0)))
       = [0xF7, 0x95, 0xBD, 0x4A, 0x52, 0xE2, 0x9E, 0xD7, 0x13, 0xD3, 0x13, 0xFA, 0x20, 0xE9,
           0x8D, 0xBC]"
proof -
  have "take 16 (drop (16 * 1)
         (OFBaes128e (replicate 33 0) (replicate 33 0) 33 (replicate 16 0) (replicate 16 0)))
        = xor_bytes (take 16 (drop (16 * 1) (replicate 33 0)))
            (keystream (replicate 16 0) (replicate 16 0) 1)"
    using OFB_full_blocks [of "replicate 16 0" "replicate 16 0" "replicate 33 0" 33
        "replicate 33 0" 1]
    by simp
  also have "\<dots> = [0xF7, 0x95, 0xBD, 0x4A, 0x52, 0xE2, 0x9E, 0xD7, 0x13, 0xD3, 0x13, 0xFA, 0x20,
      0xE9, 0x8D, 0xBC]"
    by (simp only: keystream_zero) (simp add: zeros16 xor_bytes_16)
  finally show ?thesis by simp
qed

text \<open>
  C6. For every key, IV and plaintext of length \<open>len\<close> with \<open>r = len mod 16 > 0\<close>, the
  last \<open>r\<close> bytes of the ciphertext are the last \<open>r\<close> bytes of the plaintext XOR the first
  \<open>r\<close> bytes of one more keystream block, the encryption of the chaining register as the
  loop over the full blocks left it. The whole block is produced (it is what
  \<open>block_out\<close> holds at the end) and only its first \<open>r\<close> bytes are used; the chaining
  register is not advanced: it is the IV when there was no full block and the last full
  keystream block otherwise. The call makes \<open>len / 16 + 1\<close> block encryptions.
\<close>

theorem OFB_partial_block:
  assumes "length key = 16" and "length iv = 16"
    and "length plaintext = unat len" and "length ciphertext = unat len"
    and "0 < unat len mod 16"
  shows "drop (unat len - unat len mod 16) (OFBaes128e ciphertext plaintext len iv key)
           = xor_bytes (drop (unat len - unat len mod 16) plaintext)
               (take (unat len mod 16)
                  (blockEncrypt (feedback (OFBaes128e_locals ciphertext plaintext len iv key))
                      key))
         \<and> feedback (OFBaes128e_locals ciphertext plaintext len iv key)
             = (if unat len div 16 = 0 then iv else keystream iv key (unat len div 16 - 1))
         \<and> block_out (OFBaes128e_locals ciphertext plaintext len iv key)
             = blockEncrypt (feedback (OFBaes128e_locals ciphertext plaintext len iv key)) key
         \<and> blockEncrypt (feedback (OFBaes128e_locals ciphertext plaintext len iv key)) key
             = keystream iv key (unat len div 16)
         \<and> aes_calls (OFBaes128e_locals ciphertext plaintext len iv key) = unat len div 16 + 1"
proof -
  define L where "L = unat len"
  define n where "n = L div 16"
  define r where "r = L mod 16"
  define s where "s = OFBaes128e_locals ciphertext plaintext len iv key"
  have Leq: "L = 16 * n + r" and r: "0 < r" "r < 16"
    using assms(5) by (simp_all add: n_def r_def L_def)
  have post: "OFB_post ciphertext plaintext len iv key s"
    unfolding s_def using assms(1,2) by (rule OFBaes128e_locals_post)
  have fbk: "feedback s = (if n = 0 then iv else keystream iv key (n - 1))"
    using post by (simp add: OFB_post_def n_def L_def)
  have ks: "blockEncrypt (feedback s) key = keystream iv key n"
  proof (cases n)
    case 0
    then show ?thesis by (simp add: fbk)
  next
    case (Suc n')
    then show ?thesis by (simp add: fbk)
  qed
  have "(L - 1) div 16 = n"
  proof -
    have "16 * n \<le> L - 1" "L - 1 < 16 * n + 16" using Leq r by simp_all
    then show ?thesis by (rule block_index(1))
  qed
  then have bo: "block_out s = keystream iv key n"
    using post Leq r by (simp add: OFB_post_def L_def [symmetric])
  have "(L + 15) div 16 = n + 1" using Leq r by (intro div_nat_eqI) simp_all
  then have calls: "aes_calls s = n + 1"
    using post by (simp add: OFB_post_def L_def [symmetric])
  have cf: "OFBaes128e ciphertext plaintext len iv key
           = map (\<lambda>k. plaintext ! k XOR keystream_byte iv key k) [0..<L]"
    unfolding L_def using assms(1,2,4) by (rule OFBaes128e_closed_form)
  have lk: "length (keystream iv key n) = 16"
    using assms(1,2) by (intro length_keystream) simp_all
  have Lr: "L - r = 16 * n" using Leq by simp
  have tail: "drop (L - r) (OFBaes128e ciphertext plaintext len iv key)
           = xor_bytes (drop (L - r) plaintext) (take r (keystream iv key n))"
    unfolding cf Lr using assms(3) lk Leq r
    by (intro nth_equalityI) (simp_all add: xor_bytes_def keystream_byte_block L_def [symmetric])
  show ?thesis
    using tail fbk bo ks calls
    unfolding s_def [symmetric] L_def [symmetric] r_def [symmetric] n_def [symmetric]
    by simp
qed

theorem OFB_partial_block_witness:
  "length (replicate 16 (0::byte)) = 16
   \<and> length (replicate 33 (0::byte)) = unat (33 :: 32 word)
   \<and> 0 < unat (33 :: 32 word) mod 16
   \<and> drop 32 (OFBaes128e (replicate 33 0) (replicate 33 0) 33 (replicate 16 0) (replicate 16 0))
       = [0xA1]
   \<and> feedback (OFBaes128e_locals (replicate 33 0) (replicate 33 0) 33 (replicate 16 0) (replicate
       16 0))
       = [0xF7, 0x95, 0xBD, 0x4A, 0x52, 0xE2, 0x9E, 0xD7, 0x13, 0xD3, 0x13, 0xFA, 0x20, 0xE9,
           0x8D, 0xBC]
   \<and> block_out (OFBaes128e_locals (replicate 33 0) (replicate 33 0) 33 (replicate 16 0) (replicate
       16 0))
       = [0xA1, 0x0C, 0xF6, 0x6D, 0x0F, 0xDD, 0xF3, 0x40, 0x53, 0x70, 0xB4, 0xBF, 0x8D, 0xF5,
           0xBF, 0xB3]
   \<and> aes_calls (OFBaes128e_locals (replicate 33 0) (replicate 33 0) 33 (replicate 16 0) (replicate
       16 0))
       = 3
   \<and> length [0::byte] = unat (1 :: 32 word)
   \<and> 0 < unat (1 :: 32 word) mod 16
   \<and> OFBaes128e [0] [0] 1 (replicate 16 0) (replicate 16 0) = [0x66]
   \<and> feedback (OFBaes128e_locals [0] [0] 1 (replicate 16 0) (replicate 16 0)) = replicate 16 0"
proof -
  have h: "length (replicate 16 (0::byte)) = 16"
    "length (replicate 33 (0::byte)) = unat (33 :: 32 word)"
    "0 < unat (33 :: 32 word) mod 16"
    "length [0::byte] = unat (1 :: 32 word)"
    "0 < unat (1 :: 32 word) mod 16"
    by simp_all
  have d: "unat (33 :: 32 word) mod 16 = 1" "unat (33 :: 32 word) div 16 = 2"
    "unat (33 :: 32 word) - 1 = 32" "unat (1 :: 32 word) mod 16 = 1"
    "unat (1 :: 32 word) div 16 = 0" "unat (1 :: 32 word) - 1 = 0"
    "((2::nat) = 0) = False" "(2::nat) - 1 = 1" "((0::nat) = 0) = True" "(2::nat) + 1 = 3"
    by simp_all
  note big = OFB_partial_block [OF h(1) h(1) h(2) h(2) h(3), unfolded d if_False]
  note small = OFB_partial_block [OF h(1) h(1) h(4) h(4) h(5), unfolded d if_True]
  note b1 = big [THEN conjunct1]
  note b2 = big [THEN conjunct2, THEN conjunct1]
  note b3 = big [THEN conjunct2, THEN conjunct2, THEN conjunct1]
  note b4 = big [THEN conjunct2, THEN conjunct2, THEN conjunct2, THEN conjunct1]
  note b5 = big [THEN conjunct2, THEN conjunct2, THEN conjunct2, THEN conjunct2]
  note s1 = small [THEN conjunct1]
  note s2 = small [THEN conjunct2, THEN conjunct1]
  note s4 = small [THEN conjunct2, THEN conjunct2, THEN conjunct2, THEN conjunct1]
  note 1 = b1 [unfolded b4 keystream_zero]
  note 2 = b2 [unfolded keystream_zero]
  note 3 = b3 [unfolded b4 keystream_zero]
  note 4 = b5
  note 5 = s1 [unfolded s4 keystream_zero]
  note 6 = s2
  show ?thesis
    using h 1 2 3 4 5 6 by (simp add: xor_bytes_def)
qed

text \<open>
  C10. The keystream does not depend on the plaintext: for every key, IV and length, the
  bytewise XOR of the ciphertext with its plaintext is the same for any two plaintexts of
  that length. Equivalently, replacing byte \<open>j\<close> of the plaintext by \<open>v\<close> replaces byte
  \<open>j\<close> of the ciphertext by \<open>v\<close> XOR keystream byte \<open>j\<close> and leaves every other byte of
  the output as it was.
\<close>

theorem OFB_keystream_independent:
  assumes "length key = 16" and "length iv = 16"
    and "length p1 = unat len" and "length p2 = unat len"
    and "length c1 = unat len" and "length c2 = unat len"
  shows "xor_bytes (OFBaes128e c1 p1 len iv key) p1 = xor_bytes (OFBaes128e c2 p2 len iv key) p2
         \<and> (\<forall>j v. j < unat len \<longrightarrow>
               OFBaes128e c1 (p1[j := v]) len iv key
                 = (OFBaes128e c1 p1 len iv key)[j := v XOR keystream_byte iv key j])"
proof -
  have cf: "OFBaes128e c p len iv key
           = map (\<lambda>k. p ! k XOR keystream_byte iv key k) [0..<unat len]"
    if "length c = unat len" for c p
    using assms(1,2) that by (rule OFBaes128e_closed_form)
  have a: "xor_bytes (OFBaes128e c p len iv key) p = map (keystream_byte iv key) [0..<unat len]"
    if "length c = unat len" "length p = unat len" for c p
    using that by (intro nth_equalityI) (simp_all add: cf xor_bytes_def xor.assoc xor.commute)
  have b: "OFBaes128e c1 (p1[j := v]) len iv key
                 = (OFBaes128e c1 p1 len iv key)[j := v XOR keystream_byte iv key j]"
    if "j < unat len" for j v
    using that assms(3,5)
    by (intro nth_equalityI) (simp_all add: cf nth_list_update)
  show ?thesis using a [OF assms(5,3)] a [OF assms(6,4)] b by simp
qed

theorem OFB_keystream_independent_witness:
  "length (replicate 16 (0::byte)) = 16
   \<and> length [0x41, 0x42 :: byte] = unat (2 :: 32 word)
   \<and> length [0x61, 0x62 :: byte] = unat (2 :: 32 word)
   \<and> length [0, 0 :: byte] = unat (2 :: 32 word)
   \<and> (1::nat) < unat (2 :: 32 word)
   \<and> xor_bytes (OFBaes128e [0, 0] [0x41, 0x42] 2 (replicate 16 0) (replicate 16 0)) [0x41, 0x42]
       = xor_bytes (OFBaes128e [0, 0] [0x61, 0x62] 2 (replicate 16 0) (replicate 16 0)) [0x61,
           0x62]
   \<and> OFBaes128e [0, 0] ([0x41, 0x42] [1 := 0x7A]) 2 (replicate 16 0) (replicate 16 0)
       = (OFBaes128e [0, 0] [0x41, 0x42] 2 (replicate 16 0) (replicate 16 0))
           [1 := 0x7A XOR keystream_byte (replicate 16 0) (replicate 16 0) 1]"
proof -
  have h: "length (replicate 16 (0::byte)) = 16" "length [0x41, 0x42 :: byte] = unat (2 :: 32
      word)"
    "length [0x61, 0x62 :: byte] = unat (2 :: 32 word)" "length [0, 0 :: byte] = unat (2 :: 32
        word)"
    by simp_all
  note t = OFB_keystream_independent [OF h(1) h(1) h(2) h(3) h(4) h(4)]
  have j: "(1::nat) < unat (2 :: 32 word)" by simp
  show ?thesis
    using h j t [THEN conjunct1] t [THEN conjunct2, rule_format, OF j, of "0x7A"] by simp
qed

section \<open>What the call writes\<close>

text \<open>
  On the memory model, every write of the call goes to an address of the output
  buffer: the inner loops write \<open>ciphertext[base + j]\<close> with \<open>base + j\<close> below the length.
\<close>

lemma OFB_xor_mem_frame:
  assumes "unat base + n \<le> 2 ^ 32"
    and "a < ciphertext + unat base \<or> ciphertext + unat base + n \<le> a"
  shows "OFB_xor_mem base n ciphertext plaintext blk mem a = mem a"
  using assms
proof (induction n)
  case 0
  then show ?case by (simp add: OFB_xor_mem_def)
next
  case (Suc n)
  have idx: "unat (base + word_of_nat n) = unat base + n"
    using Suc.prems(1) by (intro unat_index) simp
  have step: "OFB_xor_mem base (Suc n) ciphertext plaintext blk mem
        = (OFB_xor_mem base n ciphertext plaintext blk mem)
            (ciphertext + (unat base + n) :=
               OFB_xor_mem base n ciphertext plaintext blk mem (plaintext + (unat base + n))
                 XOR blk ! n)"
    by (simp add: OFB_xor_mem_def idx)
  have "OFB_xor_mem base n ciphertext plaintext blk mem a = mem a"
    using Suc.prems by (intro Suc.IH) auto
  moreover have "a \<noteq> ciphertext + (unat base + n)" using Suc.prems(2) by auto
  ultimately show ?case by (simp add: step)
qed

lemma OFB_blocks_mem_frame:
  assumes "16 * unat full_blocks < 2 ^ 32"
    and "a < ciphertext \<or> ciphertext + 16 * unat full_blocks \<le> a"
  shows "mem_of (OFB_blocks_mem ciphertext plaintext key full_blocks i s) a = mem_of s a"
  using assms
proof (induction ciphertext plaintext key full_blocks i s rule: OFB_blocks_mem.induct)
  case (1 ciphertext plaintext key full_blocks i s)
  show ?case
  proof (cases "i < full_blocks")
    case False
    then show ?thesis by (subst OFB_blocks_mem.simps) simp
  next
    case True
    define blk where "blk = aes128e (mem_block_out s) (mem_feedback s) (read_bytes (mem_of s) key
        16)"
    define mem' where "mem' = OFB_xor_mem (i * 16) 16 ciphertext plaintext blk (mem_of s)"
    define s' where "s' = \<lparr>mem_of = mem', mem_block_out = blk,
                            mem_feedback = memcpy (mem_feedback s) blk 16\<rparr>"
    have ui: "unat i < unat full_blocks" using True by (simp add: word_less_nat_alt)
    have base: "unat (i * 16) = 16 * unat i"
    proof -
      have "unat (i * 16) = (unat i * 16) mod 2 ^ 32" by (simp add: unat_word_ariths)
      then show ?thesis using ui "1.prems"(1) by simp
    qed
    have "mem_of (OFB_blocks_mem ciphertext plaintext key full_blocks (i + 1) s') a = mem_of s' a"
      unfolding s'_def mem'_def blk_def
      using "1.prems" by (intro "1.IH" [OF True refl refl refl]) simp_all
    moreover have "mem' a = mem_of s a"
      unfolding mem'_def using base ui "1.prems"
      by (intro OFB_xor_mem_frame) auto
    moreover have "OFB_blocks_mem ciphertext plaintext key full_blocks i s
                   = OFB_blocks_mem ciphertext plaintext key full_blocks (i + 1) s'"
      by (subst OFB_blocks_mem.simps) (simp add: True Let_def s'_def mem'_def blk_def)
    ultimately show ?thesis by (simp add: s'_def)
  qed
qed

lemma OFBaes128e_mem_frame:
  assumes "a < ciphertext \<or> ciphertext + unat len \<le> a"
  shows "OFBaes128e_mem ciphertext plaintext len iv key mem a = mem a"
proof -
  define L where "L = unat len"
  define n where "n = L div 16"
  define rem where "rem = L mod 16"
  define s0 where "s0 = \<lparr>mem_of = mem, mem_block_out = replicate 16 0,
                          mem_feedback = memcpy (replicate 16 0) (read_bytes mem iv 16) 16\<rparr>"
  define s1 where "s1 = OFB_blocks_mem ciphertext plaintext key (len div 16) 0 s0"
  have Lb: "L < 2 ^ 32" unfolding L_def using unsigned_less [of len, where 'a=nat] by simp
  have ufb: "unat (len div 16) = n" by (simp add: n_def L_def unat_div)
  have urem: "unat (len mod 16) = rem" by (simp add: rem_def L_def unat_mod)
  have Leq: "L = 16 * n + rem" by (simp add: n_def rem_def)
  have a': "a < ciphertext \<or> ciphertext + L \<le> a" using assms by (simp add: L_def)
  have 1: "mem_of s1 a = mem a"
  proof -
    have "mem_of s1 a = mem_of s0 a"
      unfolding s1_def using Lb Leq ufb a'
      by (intro OFB_blocks_mem_frame) auto
    then show ?thesis by (simp add: s0_def)
  qed
  have base: "unat (len div 16 * 16) = 16 * n"
  proof -
    have "unat (len div 16 * 16) = (unat (len div 16) * 16) mod 2 ^ 32"
      by (simp add: unat_word_ariths)
    then show ?thesis using Lb Leq ufb by simp
  qed
  have 2: "OFB_xor_mem (len div 16 * 16) rem ciphertext plaintext blk (mem_of s1) a = mem_of s1 a"
    for blk
    using base Lb Leq a' by (intro OFB_xor_mem_frame) auto
  show ?thesis
    by (simp add: OFBaes128e_mem_def Let_def s0_def [symmetric] s1_def [symmetric] urem 1 2)
qed

lemma read_bytes_cong:
  assumes "\<And>a. p \<le> a \<Longrightarrow> a < p + n \<Longrightarrow> mem' a = mem a"
  shows "read_bytes mem' p n = read_bytes mem p n"
  using assms by (simp add: read_bytes_def)

text \<open>
  When the output buffer overlaps neither the key nor the plaintext nor the IV, the bytes
  the call on memory leaves in the output buffer are the list that the call on lists
  returns for the contents of the four buffers.
\<close>

lemma OFB_xor_mem_at:
  assumes fin: "unat base + n \<le> 2 ^ 32"
    and sep: "ciphertext + unat base + n \<le> plaintext \<or> plaintext + unat base + n \<le> ciphertext"
  shows "OFB_xor_mem base n ciphertext plaintext blk mem a =
           (if ciphertext + unat base \<le> a \<and> a < ciphertext + unat base + n
            then mem (plaintext + (a - ciphertext)) XOR blk ! (a - ciphertext - unat base)
            else mem a)"
  using fin sep
proof (induction n arbitrary: a)
  case 0
  show ?case by (auto simp add: OFB_xor_mem_def)
next
  case (Suc n)
  let ?m = "OFB_xor_mem base n ciphertext plaintext blk mem"
  have idx: "unat (base + word_of_nat n) = unat base + n"
    using Suc.prems(1) by (intro unat_index) simp
  have step: "OFB_xor_mem base (Suc n) ciphertext plaintext blk mem
        = ?m (ciphertext + (unat base + n) := ?m (plaintext + (unat base + n)) XOR blk ! n)"
    by (simp add: OFB_xor_mem_def idx)
  have IH: "?m b = (if ciphertext + unat base \<le> b \<and> b < ciphertext + unat base + n
            then mem (plaintext + (b - ciphertext)) XOR blk ! (b - ciphertext - unat base)
            else mem b)" for b
    using Suc.prems by (intro Suc.IH) auto
  have rd: "?m (plaintext + (unat base + n)) = mem (plaintext + (unat base + n))"
    using Suc.prems(2) by (subst IH) auto
  show ?case
  proof (cases "a = ciphertext + (unat base + n)")
    case True
    then show ?thesis by (simp add: step rd)
  next
    case False
    then show ?thesis by (auto simp add: step IH)
  qed
qed

lemma OFB_xor_sim:
  assumes fin: "L \<le> 2 ^ 32" and inside: "unat base + n \<le> L"
    and sep: "ciphertext + L \<le> plaintext \<or> plaintext + L \<le> ciphertext"
  shows "read_bytes (OFB_xor_mem base n ciphertext plaintext blk mem) ciphertext L
         = OFB_xor base n (read_bytes mem plaintext L) blk (read_bytes mem ciphertext L)"
proof (rule nth_equalityI)
  show "length (read_bytes (OFB_xor_mem base n ciphertext plaintext blk mem) ciphertext L)
        = length (OFB_xor base n (read_bytes mem plaintext L) blk (read_bytes mem ciphertext L))"
    by (simp add: read_bytes_def length_OFB_xor)
next
  fix k
  assume "k < length (read_bytes (OFB_xor_mem base n ciphertext plaintext blk mem) ciphertext L)"
  then have k: "k < L" by (simp add: read_bytes_def)
  have f: "unat base + n \<le> 2 ^ 32" using fin inside by simp
  have s: "ciphertext + unat base + n \<le> plaintext \<or> plaintext + unat base + n \<le> ciphertext"
    using sep inside by auto
  have 1: "OFB_xor base n (read_bytes mem plaintext L) blk (read_bytes mem ciphertext L) ! k
        = (if unat base \<le> k \<and> k < unat base + n
            then read_bytes mem plaintext L ! k XOR blk ! (k - unat base)
            else read_bytes mem ciphertext L ! k)"
    using f k by (intro OFB_xor_nth) (simp_all add: read_bytes_def)
  show "read_bytes (OFB_xor_mem base n ciphertext plaintext blk mem) ciphertext L ! k
        = OFB_xor base n (read_bytes mem plaintext L) blk (read_bytes mem ciphertext L) ! k"
    unfolding 1 using k by (simp add: read_bytes_def OFB_xor_mem_at [OF f s])
qed

lemma read_outside:
  assumes "\<forall>a. a < ciphertext \<or> ciphertext + L \<le> a \<longrightarrow> m a = mem a"
    and "ciphertext + L \<le> p \<or> p + n \<le> ciphertext"
  shows "read_bytes m p n = read_bytes mem p n"
  using assms by (intro read_bytes_cong) auto

lemma OFB_blocks_sim:
  assumes fin: "L < 2 ^ 32" and inside: "16 * unat full_blocks \<le> L"
    and sepk: "ciphertext + L \<le> key \<or> key + 16 \<le> ciphertext"
    and sepp: "ciphertext + L \<le> plaintext \<or> plaintext + L \<le> ciphertext"
    and m: "m = unat full_blocks - unat i"
    and sim: "OFB_sim mem ciphertext L sm s"
  shows "OFB_sim mem ciphertext L
           (OFB_blocks_mem ciphertext plaintext key full_blocks i sm)
           (OFB_blocks (read_bytes mem plaintext L) (read_bytes mem key 16) full_blocks i s)"
  using m sim
proof (induction m arbitrary: i sm s)
  case 0
  then have "\<not> i < full_blocks" by (simp add: word_less_nat_alt)
  then have "OFB_blocks_mem ciphertext plaintext key full_blocks i sm = sm"
    "OFB_blocks (read_bytes mem plaintext L) (read_bytes mem key 16) full_blocks i s = s"
    by (subst OFB_blocks_mem.simps, simp, subst OFB_blocks.simps, simp)
  then show ?case using "0.prems"(2) by simp
next
  case (Suc m)
  define pl where "pl = read_bytes mem plaintext L"
  define kl where "kl = read_bytes mem key 16"
  have ui: "unat i < unat full_blocks" using Suc.prems(1) by simp
  then have lt: "i < full_blocks" by (simp add: word_less_nat_alt)
  have ui1: "unat (i + 1) = unat i + 1" using lt by (rule unat_succ_less)
  have m1: "m = unat full_blocks - unat (i + 1)" using Suc.prems(1) ui1 by simp
  from Suc.prems(2) have
    r1: "read_bytes (mem_of sm) ciphertext L = ciphertext_buf s" and
    r2: "mem_block_out sm = block_out s" and
    r3: "mem_feedback sm = feedback s" and
    r4: "\<forall>a. a < ciphertext \<or> ciphertext + L \<le> a \<longrightarrow> mem_of sm a = mem a"
    by (simp_all add: OFB_sim_def)
  define blk where "blk = aes128e (block_out s) (feedback s) kl"
  define mem' where "mem' = OFB_xor_mem (i * 16) 16 ciphertext plaintext blk (mem_of sm)"
  define c' where "c' = OFB_xor (i * 16) 16 pl blk (ciphertext_buf s)"
  define sm' where "sm' = \<lparr>mem_of = mem', mem_block_out = blk,
                            mem_feedback = memcpy (feedback s) blk 16\<rparr>"
  define s' where "s' = \<lparr>ciphertext_buf = c', block_out = blk,
                          feedback = memcpy (feedback s) blk 16, aes_calls = aes_calls s + 1\<rparr>"
  have rk: "read_bytes (mem_of sm) key 16 = kl"
    unfolding kl_def using r4 sepk by (rule read_outside)
  have rp: "read_bytes (mem_of sm) plaintext L = pl"
    unfolding pl_def using r4 sepp by (rule read_outside)
  have um: "OFB_blocks_mem ciphertext plaintext key full_blocks i sm
            = OFB_blocks_mem ciphertext plaintext key full_blocks (i + 1) sm'"
    by (subst OFB_blocks_mem.simps)
       (simp add: lt Let_def sm'_def mem'_def blk_def rk r2 r3)
  have ul: "OFB_blocks pl kl full_blocks i s = OFB_blocks pl kl full_blocks (i + 1) s'"
    by (subst OFB_blocks.simps) (simp add: lt Let_def s'_def c'_def blk_def)
  have base: "unat (i * 16) = 16 * unat i"
  proof -
    have "unat (i * 16) = (unat i * 16) mod 2 ^ 32" by (simp add: unat_word_ariths)
    then show ?thesis using ui inside fin by simp
  qed
  have in16: "unat (i * 16) + 16 \<le> L" using base ui inside by simp
  have "read_bytes mem' ciphertext L
        = OFB_xor (i * 16) 16 (read_bytes (mem_of sm) plaintext L) blk
            (read_bytes (mem_of sm) ciphertext L)"
    unfolding mem'_def using fin in16 sepp by (intro OFB_xor_sim) simp_all
  then have s1: "read_bytes mem' ciphertext L = c'" by (simp add: c'_def rp r1)
  have s4: "\<forall>a. a < ciphertext \<or> ciphertext + L \<le> a \<longrightarrow> mem' a = mem a"
  proof (intro allI impI)
    fix a assume a: "a < ciphertext \<or> ciphertext + L \<le> a"
    have "mem' a = mem_of sm a"
      unfolding mem'_def using in16 fin a by (intro OFB_xor_mem_frame) auto
    then show "mem' a = mem a" using r4 a by simp
  qed
  have "OFB_sim mem ciphertext L sm' s'"
    using s1 s4 by (simp add: OFB_sim_def sm'_def s'_def)
  then have "OFB_sim mem ciphertext L
           (OFB_blocks_mem ciphertext plaintext key full_blocks (i + 1) sm')
           (OFB_blocks pl kl full_blocks (i + 1) s')"
    using m1 unfolding pl_def kl_def by (intro Suc.IH)
  then show ?case
    unfolding pl_def [symmetric] kl_def [symmetric] um ul .
qed

lemma OFBaes128e_mem_refines:
  assumes sepi: "ciphertext + unat len \<le> iv \<or> iv + 16 \<le> ciphertext"
    and sepk: "ciphertext + unat len \<le> key \<or> key + 16 \<le> ciphertext"
    and sepp: "ciphertext + unat len \<le> plaintext \<or> plaintext + unat len \<le> ciphertext"
  shows "read_bytes (OFBaes128e_mem ciphertext plaintext len iv key mem) ciphertext (unat len)
         = OFBaes128e (read_bytes mem ciphertext (unat len)) (read_bytes mem plaintext (unat len))
             len (read_bytes mem iv 16) (read_bytes mem key 16)"
proof -
  define L where "L = unat len"
  define pl where "pl = read_bytes mem plaintext L"
  define kl where "kl = read_bytes mem key 16"
  define sm0 where "sm0 = \<lparr>mem_of = mem, mem_block_out = replicate 16 0,
                          mem_feedback = memcpy (replicate 16 0) (read_bytes mem iv 16) 16\<rparr>"
  define s0 where "s0 = \<lparr>ciphertext_buf = read_bytes mem ciphertext L, block_out = replicate 16 0,
                          feedback = memcpy (replicate 16 0) (read_bytes mem iv 16) 16,
                          aes_calls = 0\<rparr>"
  define sm1 where "sm1 = OFB_blocks_mem ciphertext plaintext key (len div 16) 0 sm0"
  define s1 where "s1 = OFB_blocks pl kl (len div 16) 0 s0"
  have Lb: "L < 2 ^ 32" unfolding L_def using unsigned_less [of len, where 'a=nat] by simp
  have ufb: "unat (len div 16) = L div 16" by (simp add: L_def unat_div)
  have urem: "unat (len mod 16) = L mod 16" by (simp add: L_def unat_mod)
  have ins: "16 * unat (len div 16) \<le> L" using ufb by simp
  have "OFB_sim mem ciphertext L sm0 s0" by (simp add: OFB_sim_def sm0_def s0_def)
  then have sim1: "OFB_sim mem ciphertext L sm1 s1"
    unfolding sm1_def s1_def pl_def kl_def
    using Lb ins sepk sepp
    by (intro OFB_blocks_sim [where m = "unat (len div 16) - unat (0 :: 32 word)"])
       (simp_all add: L_def)
  then have
    r1: "read_bytes (mem_of sm1) ciphertext L = ciphertext_buf s1" and
    r2: "mem_block_out sm1 = block_out s1" and
    r3: "mem_feedback sm1 = feedback s1" and
    r4: "\<forall>a. a < ciphertext \<or> ciphertext + L \<le> a \<longrightarrow> mem_of sm1 a = mem a"
    by (simp_all add: OFB_sim_def)
  have rk: "read_bytes (mem_of sm1) key 16 = kl"
    unfolding kl_def using r4 sepk [folded L_def] by (rule read_outside)
  have rp: "read_bytes (mem_of sm1) plaintext L = pl"
    unfolding pl_def using r4 sepp [folded L_def] by (rule read_outside)
  show ?thesis
  proof (cases "len mod 16 > 0")
    case False
    then show ?thesis
      unfolding L_def [symmetric]
      by (simp add: OFBaes128e_mem_def OFBaes128e_def OFBaes128e_locals_def Let_def
            sm0_def [symmetric] s0_def [symmetric] pl_def [symmetric] kl_def [symmetric]
            sm1_def [symmetric] s1_def [symmetric] r1)
  next
    case True
    define blk where "blk = aes128e (block_out s1) (feedback s1) kl"
    have base: "unat (len div 16 * 16) = 16 * (L div 16)"
    proof -
      have "unat (len div 16 * 16) = (unat (len div 16) * 16) mod 2 ^ 32"
        by (simp add: unat_word_ariths)
      then show ?thesis using Lb ufb by simp
    qed
    have "unat (len div 16 * 16) + L mod 16 \<le> L" using base by simp
    then have "read_bytes (OFB_xor_mem (len div 16 * 16) (L mod 16) ciphertext plaintext blk
                 (mem_of sm1)) ciphertext L
        = OFB_xor (len div 16 * 16) (L mod 16) (read_bytes (mem_of sm1) plaintext L) blk
            (read_bytes (mem_of sm1) ciphertext L)"
      using Lb sepp [folded L_def] by (intro OFB_xor_sim) simp_all
    then show ?thesis
      using True unfolding L_def [symmetric]
      by (simp add: OFBaes128e_mem_def OFBaes128e_def OFBaes128e_locals_def Let_def
            sm0_def [symmetric] s0_def [symmetric] pl_def [symmetric] kl_def [symmetric]
            sm1_def [symmetric] s1_def [symmetric] r1 r2 r3 rk rp urem blk_def [symmetric])
  qed
qed

text \<open>
  C9, as amended. In every call, \<open>OFBaes128e\<close> writes to the \<open>len\<close> bytes of the output
  buffer and to no other byte of the caller's memory. So whenever the output buffer does
  not overlap the IV buffer, the 16 bytes of the IV are the same before and after the
  call (the IV is copied into the local \<open>feedback\<close> and never written through the
  pointer, although the parameter is not \<open>const\<close>), whatever else the output buffer
  overlaps; and likewise the key is unchanged when the output buffer does not overlap
  it, and the plaintext when the output buffer does not overlap it.
\<close>

theorem OFB_frame:
  "(\<forall>a. a < ciphertext \<or> ciphertext + unat len \<le> a \<longrightarrow>
        OFBaes128e_mem ciphertext plaintext len iv key mem a = mem a)
   \<and> (ciphertext + unat len \<le> iv \<or> iv + 16 \<le> ciphertext \<longrightarrow>
        read_bytes (OFBaes128e_mem ciphertext plaintext len iv key mem) iv 16
          = read_bytes mem iv 16)
   \<and> (ciphertext + unat len \<le> key \<or> key + 16 \<le> ciphertext \<longrightarrow>
        read_bytes (OFBaes128e_mem ciphertext plaintext len iv key mem) key 16
          = read_bytes mem key 16)
   \<and> (ciphertext + unat len \<le> plaintext \<or> plaintext + unat len \<le> ciphertext \<longrightarrow>
        read_bytes (OFBaes128e_mem ciphertext plaintext len iv key mem) plaintext (unat len)
          = read_bytes mem plaintext (unat len))"
proof -
  have r: "read_bytes (OFBaes128e_mem ciphertext plaintext len iv key mem) p n
           = read_bytes mem p n"
    if "ciphertext + unat len \<le> p \<or> p + n \<le> ciphertext" for p n
    using that by (intro read_bytes_cong OFBaes128e_mem_frame) auto
  show ?thesis
    using r [of iv 16] r [of key 16] r [of plaintext "unat len"]
    by (simp add: OFBaes128e_mem_frame)
qed

theorem OFB_frame_witness:
  "((0::nat) + unat (1 :: 32 word) \<le> 16 \<or> (16::nat) + 16 \<le> 0)
   \<and> read_bytes (OFBaes128e_mem 0 0 1 16 32 (\<lambda>a. 0)) 16 16 = read_bytes (\<lambda>a. 0) 16 16
   \<and> ((0::nat) + unat (1 :: 32 word) \<le> 32 \<or> (32::nat) + 16 \<le> 0)
   \<and> read_bytes (OFBaes128e_mem 0 0 1 16 32 (\<lambda>a. 0)) 32 16 = read_bytes (\<lambda>a. 0) 32 16
   \<and> OFBaes128e_mem 0 0 1 16 32 (\<lambda>a. 0) 1 = 0
   \<and> ((100::nat) + unat (33 :: 32 word) \<le> 0 \<or> (0::nat) + unat (33 :: 32 word) \<le> 100)
   \<and> read_bytes (OFBaes128e_mem 100 0 33 200 300 (\<lambda>a. 0)) 0 (unat (33 :: 32 word))
       = read_bytes (\<lambda>a. 0) 0 (unat (33 :: 32 word))
   \<and> read_bytes (OFBaes128e_mem 100 0 33 200 300 (\<lambda>a. 0)) 200 16 = read_bytes (\<lambda>a. 0) 200 16
   \<and> OFBaes128e_mem 100 0 33 200 300 (\<lambda>a. 0) 99 = 0
   \<and> OFBaes128e_mem 100 0 33 200 300 (\<lambda>a. 0) 133 = 0"
proof -
  note a = OFB_frame [of 0 1 0 16 32 "\<lambda>a. 0"]
  note b = OFB_frame [of 100 33 0 200 300 "\<lambda>a. 0"]
  have a1: "OFBaes128e_mem 0 0 1 16 32 (\<lambda>a. 0) 1 = 0"
    using a [THEN conjunct1, rule_format, of 1] by simp
  have a2: "read_bytes (OFBaes128e_mem 0 0 1 16 32 (\<lambda>a. 0)) 16 16 = read_bytes (\<lambda>a. 0) 16 16"
    using a [THEN conjunct2, THEN conjunct1] by simp
  have a3: "read_bytes (OFBaes128e_mem 0 0 1 16 32 (\<lambda>a. 0)) 32 16 = read_bytes (\<lambda>a. 0) 32 16"
    using a [THEN conjunct2, THEN conjunct2, THEN conjunct1] by simp
  have b1: "OFBaes128e_mem 100 0 33 200 300 (\<lambda>a. 0) 99 = 0"
    "OFBaes128e_mem 100 0 33 200 300 (\<lambda>a. 0) 133 = 0"
    using b [THEN conjunct1, rule_format, of 99] b [THEN conjunct1, rule_format, of 133]
    by simp_all
  have b2: "read_bytes (OFBaes128e_mem 100 0 33 200 300 (\<lambda>a. 0)) 200 16 = read_bytes (\<lambda>a. 0) 200
      16"
    using b [THEN conjunct2, THEN conjunct1] by simp
  have b3: "read_bytes (OFBaes128e_mem 100 0 33 200 300 (\<lambda>a. 0)) 0 (unat (33 :: 32 word))
       = read_bytes (\<lambda>a. 0) 0 (unat (33 :: 32 word))"
    using b [THEN conjunct2, THEN conjunct2, THEN conjunct2] by simp
  show ?thesis using a1 a2 a3 b1 b2 b3 by simp
qed

text \<open>
  C9 as the specification words it, for every invocation, does not hold: nothing keeps
  the output buffer apart from the other buffers. Encrypting one byte in place (the output pointer
  is the plaintext pointer; memory all zero, IV at address 16, key at address 32)
  overwrites the plaintext byte with 0x66.
\<close>

lemma OFBaes128e_mem_one_byte:
  "OFBaes128e_mem c p 1 iv key (\<lambda>a. 0) c = 0x66"
proof -
  have z: "read_bytes (\<lambda>a. 0) p 16 = replicate 16 0" for p
    by (simp add: read_bytes_def upt_0_16 zeros16)
  have w: "(1 :: 32 word) div 16 = 0" "(1 :: 32 word) mod 16 = 1" by simp_all
  have l: "OFB_blocks_mem c p key 0 0 s = s" for s
    by (subst OFB_blocks_mem.simps) simp
  have a: "aes128e (replicate 16 0) (replicate 16 0) (replicate 16 0) = [0x66, 0xE9, 0x4B, 0xD4,
      0xEF, 0x8A, 0x2C, 0x3B, 0x88, 0x4C, 0xFA, 0x59, 0xCA, 0x34, 0x2B, 0x2E]"
    using blockEncrypt_zero by (simp add: blockEncrypt_def zeros16)
  show ?thesis
    by (simp add: OFBaes128e_mem_def Let_def w l z memcpy_def a OFB_xor_mem_def)
qed

theorem OFB_in_place_counterexample:
  "\<not> (read_bytes (OFBaes128e_mem 0 0 1 16 32 (\<lambda>a. 0)) 16 16 = read_bytes (\<lambda>a. 0) 16 16
      \<and> read_bytes (OFBaes128e_mem 0 0 1 16 32 (\<lambda>a. 0)) 0 (unat (1 :: 32 word))
          = read_bytes (\<lambda>a. 0) 0 (unat (1 :: 32 word))
      \<and> read_bytes (OFBaes128e_mem 0 0 1 16 32 (\<lambda>a. 0)) 32 16 = read_bytes (\<lambda>a. 0) 32 16)"
  using OFBaes128e_mem_one_byte [of 0 0 16 32] by (simp add: read_bytes_def)

text \<open>
  In the same way a call whose output pointer is the IV pointer (IV at address 16,
  plaintext at address 0) overwrites the first byte of the IV.
\<close>

lemma OFB_output_on_iv:
  "read_bytes (OFBaes128e_mem 16 0 1 16 32 (\<lambda>a. 0)) 16 16 \<noteq> read_bytes (\<lambda>a. 0) 16 16"
proof
  assume "read_bytes (OFBaes128e_mem 16 0 1 16 32 (\<lambda>a. 0)) 16 16 = read_bytes (\<lambda>a. 0) 16 16"
  then have "read_bytes (OFBaes128e_mem 16 0 1 16 32 (\<lambda>a. 0)) 16 16 ! 0
             = read_bytes (\<lambda>a. 0) 16 16 ! 0"
    by simp
  then show False
    using OFBaes128e_mem_one_byte [of 16 0 16 32] by (simp add: read_bytes_def)
qed


end
